theory Spec2Isabelle
  imports Main
begin

section \<open>Arrays, indexing and errors\<close>

text \<open>
  A two-dimensional numpy array is modelled as the list of its rows. Cell values are
  Python/numpy integers, modelled as \<open>int\<close>: the engine itself only ever stores 0 and
  1, which every integer dtype it uses (int8 at construction, the platform integer after
  \<open>randomize\<close>) holds exactly, and \<open>np.sum\<close> accumulates in the platform integer.
  A numpy array is always rectangular; \<open>shape_ok a h w\<close> says that the list of rows
  \<open>a\<close> is the array of shape \<open>(h, w)\<close>.
\<close>

type_synonym ndarray = "int list list"

datatype error = IndexError | ValueError | OSError

definition shape_ok :: "ndarray \<Rightarrow> nat \<Rightarrow> nat \<Rightarrow> bool" where
  "shape_ok a h w \<longleftrightarrow> length a = h \<and> (\<forall>row \<in> set a. length row = w)"

definition binary :: "ndarray \<Rightarrow> bool" where
  "binary a \<longleftrightarrow> (\<forall>row \<in> set a. \<forall>v \<in> set row. v = 0 \<or> v = 1)"

text \<open>The number of columns of an array (\<open>shape[1]\<close>); an array without rows is
  represented without columns.\<close>

definition ncols :: "ndarray \<Rightarrow> nat" where
  "ncols a = (case a of [] \<Rightarrow> 0 | row # _ \<Rightarrow> length row)"

text \<open>numpy's integer index \<open>k\<close> on an axis of length \<open>n\<close>: a negative index counts
  from the end, anything outside \<open>[-n, n)\<close> raises IndexError.\<close>

definition np_index :: "nat \<Rightarrow> int \<Rightarrow> error + nat" where
  "np_index n k =
     (if 0 \<le> k \<and> k < int n then Inr (nat k)
      else if - int n \<le> k \<and> k < 0 then Inr (nat (k + int n))
      else Inl IndexError)"

text \<open>\<open>a[i, j]\<close> read and \<open>a[i, j] = v\<close> write.\<close>

definition getitem :: "ndarray \<Rightarrow> int \<Rightarrow> int \<Rightarrow> error + int" where
  "getitem a i j =
     (case np_index (length a) i of
        Inl e \<Rightarrow> Inl e
      | Inr r \<Rightarrow>
          (case np_index (length (a ! r)) j of
             Inl e \<Rightarrow> Inl e
           | Inr c \<Rightarrow> Inr (a ! r ! c)))"

definition setitem :: "ndarray \<Rightarrow> int \<Rightarrow> int \<Rightarrow> int \<Rightarrow> error + ndarray" where
  "setitem a i j v =
     (case np_index (length a) i of
        Inl e \<Rightarrow> Inl e
      | Inr r \<Rightarrow>
          (case np_index (length (a ! r)) j of
             Inl e \<Rightarrow> Inl e
           | Inr c \<Rightarrow> Inr (a[r := (a ! r)[c := v]])))"

text \<open>The basic slice \<open>a[r0:r1, c0:c1]\<close> with non-negative bounds: the bounds are
  clipped to the array, never an error. \<open>np.sum\<close> adds all cells up.\<close>

definition slice2 :: "ndarray \<Rightarrow> nat \<Rightarrow> nat \<Rightarrow> nat \<Rightarrow> nat \<Rightarrow> ndarray" where
  "slice2 a r0 r1 c0 c1 = map (\<lambda>row. drop c0 (take c1 row)) (drop r0 (take r1 a))"

definition np_sum :: "ndarray \<Rightarrow> int" where
  "np_sum a = sum_list (map sum_list a)"

text \<open>The slice assignment \<open>a[r0:r1, c0:c1] = p\<close> with non-negative bounds. The
  target is the clipped slice; \<open>p\<close> must broadcast to its shape (each axis of \<open>p\<close> has
  the target's length or length 1), otherwise numpy raises ValueError and nothing is
  written.\<close>

definition broadcastable :: "nat \<Rightarrow> nat \<Rightarrow> bool" where
  "broadcastable src dst \<longleftrightarrow> src = dst \<or> src = 1"

definition bidx :: "nat \<Rightarrow> nat \<Rightarrow> nat" where
  "bidx src k = (if src = 1 then 0 else k)"

definition setslice :: "ndarray \<Rightarrow> nat \<Rightarrow> nat \<Rightarrow> nat \<Rightarrow> nat \<Rightarrow> ndarray \<Rightarrow> error + ndarray" where
  "setslice a r0 r1 c0 c1 p =
     (let sh = min r1 (length a) - min r0 (length a);
          sw = min c1 (ncols a) - min c0 (ncols a);
          ph = length p;
          pw = ncols p
      in if broadcastable ph sh \<and> broadcastable pw sw
         then Inr (map (\<lambda>r. if r0 \<le> r \<and> r < r0 + sh
                              then map (\<lambda>c. if c0 \<le> c \<and> c < c0 + sw
                                             then p ! bidx ph (r - r0) ! bidx pw (c - c0)
                                             else a ! r ! c)
                                   [0..<length (a ! r)]
                              else a ! r)
                    [0..<length a])
         else Inl ValueError)"

text \<open>A \<open>for\<close> loop over a list of indices whose body may raise: the first exception
  ends the loop.\<close>

fun for_loop :: "nat list \<Rightarrow> (nat \<Rightarrow> 'a \<Rightarrow> error + 'a) \<Rightarrow> 'a \<Rightarrow> error + 'a" where
  "for_loop [] body acc = Inr acc"
| "for_loop (i # is) body acc =
     (case body i acc of Inl e \<Rightarrow> Inl e | Inr acc' \<Rightarrow> for_loop is body acc')"

text \<open>The sum of two reads that may raise, the left operand evaluated first.\<close>

definition add_err :: "error + int \<Rightarrow> error + int \<Rightarrow> error + int" where
  "add_err x y =
     (case x of Inl e \<Rightarrow> Inl e
      | Inr a \<Rightarrow> (case y of Inl e \<Rightarrow> Inl e | Inr b \<Rightarrow> Inr (a + b)))"


section \<open>The engine of game_of_life.py: class GameOfLife\<close>

text \<open>
  The object's fields. \<open>history\<close> is a Python list, oldest snapshot first. Every
  snapshot is a copy (\<open>self.grid.copy()\<close>), \<open>update\<close> and \<open>randomize\<close> bind \<open>self.grid\<close>
  to a fresh array and \<open>undo\<close> removes the array it installs from the list, so no
  snapshot is ever shared with the live grid and the in-place writes of \<open>toggle_cell\<close>,
  \<open>clear\<close> and \<open>apply_pattern\<close> cannot reach the history: values model the objects.
\<close>

record GameOfLife =
  width :: nat
  height :: nat
  grid :: ndarray
  generation :: int
  history :: "ndarray list"
  boundary_type :: string

text \<open>\<open>__init__\<close>: \<open>np.zeros((height, width))\<close>, generation 0, no history.\<close>

definition GameOfLife_init :: "nat \<Rightarrow> nat \<Rightarrow> GameOfLife" where
  "GameOfLife_init w h =
     \<lparr> width = w, height = h, grid = replicate h (replicate w 0),
       generation = 0, history = [], boundary_type = ''fixed'' \<rparr>"

text \<open>\<open>_count_neighbors(i, j)\<close> as \<open>update\<close> calls it, with \<open>i\<close> and \<open>j\<close> from
  \<open>range\<close>: the sum of the window \<open>[max(0,i-1):min(height,i+2), max(0,j-1):min(width,j+2)]\<close>
  minus the cell itself.\<close>

definition count_neighbors :: "GameOfLife \<Rightarrow> nat \<Rightarrow> nat \<Rightarrow> error + int" where
  "count_neighbors s i j =
     (let total = np_sum (slice2 (grid s)
                     (nat (max 0 (int i - 1))) (min (height s) (i + 2))
                     (nat (max 0 (int j - 1))) (min (width s) (j + 2)))
      in case getitem (grid s) (int i) (int j) of
           Inl e \<Rightarrow> Inl e
         | Inr c \<Rightarrow> Inr (total - c))"

text \<open>The body of the two nested loops of \<open>update\<close>: it reads \<open>self.grid\<close> (the state
  \<open>s\<close>) and writes \<open>new_grid\<close>.\<close>

definition update_cell :: "GameOfLife \<Rightarrow> nat \<Rightarrow> nat \<Rightarrow> ndarray \<Rightarrow> error + ndarray" where
  "update_cell s i j new_grid =
     (case count_neighbors s i j of
        Inl e \<Rightarrow> Inl e
      | Inr neighbors \<Rightarrow>
          (case getitem (grid s) (int i) (int j) of
             Inl e \<Rightarrow> Inl e
           | Inr c \<Rightarrow>
               if c \<noteq> 0 then
                 (if neighbors < 2 \<or> neighbors > 3 then setitem new_grid (int i) (int j) 0
                  else Inr new_grid)
               else if neighbors = 3 then setitem new_grid (int i) (int j) 1
               else Inr new_grid))"

text \<open>\<open>update\<close>. The result pairs the exception raised, if any, with the object as the
  call leaves it: the snapshot is pushed before the loops run, so it stays pushed when
  a read raises.\<close>

definition update :: "GameOfLife \<Rightarrow> error option \<times> GameOfLife" where
  "update s =
     (let pushed = history s @ [grid s];
          hist = (if length pushed > 50 then tl pushed else pushed);
          s1 = s\<lparr>history := hist\<rparr>
      in case for_loop [0..<height s]
                (\<lambda>i. for_loop [0..<width s] (\<lambda>j. update_cell s1 i j)) (grid s) of
           Inl e \<Rightarrow> (Some e, s1)
         | Inr new_grid \<Rightarrow>
             (None, s1\<lparr>grid := new_grid, generation := generation s + 1\<rparr>))"

text \<open>\<open>toggle_cell(i, j)\<close>: \<open>not\<close> of a cell is 1 for a zero cell and 0 otherwise.\<close>

definition toggle_cell :: "GameOfLife \<Rightarrow> int \<Rightarrow> int \<Rightarrow> error option \<times> GameOfLife" where
  "toggle_cell s i j =
     (if 0 \<le> i \<and> i < int (height s) \<and> 0 \<le> j \<and> j < int (width s) then
        (case getitem (grid s) i j of
           Inl e \<Rightarrow> (Some e, s)
         | Inr c \<Rightarrow>
             (case setitem (grid s) i j (if c \<noteq> 0 then 0 else 1) of
                Inl e \<Rightarrow> (Some e, s)
              | Inr g \<Rightarrow> (None, s\<lparr>grid := g\<rparr>)))
      else (None, s))"

text \<open>\<open>clear\<close>: \<open>self.grid.fill(0)\<close>.\<close>

definition clear :: "GameOfLife \<Rightarrow> GameOfLife" where
  "clear s = s\<lparr>grid := map (map (\<lambda>_. 0)) (grid s)\<rparr>"

text \<open>\<open>randomize\<close>: \<open>np.random.choice([0, 1], size=(height, width), p=...)\<close>. The
  draw is a parameter: \<open>draw i j\<close> tells whether the sample at row \<open>i\<close>, column \<open>j\<close>
  is the second element, 1.\<close>

definition randomize :: "GameOfLife \<Rightarrow> (nat \<Rightarrow> nat \<Rightarrow> bool) \<Rightarrow> GameOfLife" where
  "randomize s draw =
     s\<lparr>grid := map (\<lambda>i. map (\<lambda>j. if draw i j then 1 else 0) [0..<width s]) [0..<height s]\<rparr>"

text \<open>\<open>undo\<close>: \<open>history.pop()\<close> removes and returns the last element.\<close>

definition undo :: "GameOfLife \<Rightarrow> bool \<times> GameOfLife" where
  "undo s =
     (if history s \<noteq> [] then
        (True, s\<lparr>grid := last (history s), history := butlast (history s),
                 generation := generation s - 1\<rparr>)
      else (False, s))"

text \<open>Sequences of calls on one engine object. An exception ends the call that raised
  it; the object stays as that call left it.\<close>

datatype op = Step | Undo | Toggle int int | Clear | Randomize "nat \<Rightarrow> nat \<Rightarrow> bool"

fun exec :: "op \<Rightarrow> GameOfLife \<Rightarrow> GameOfLife" where
  "exec Step s = snd (update s)"
| "exec Undo s = snd (undo s)"
| "exec (Toggle i j) s = snd (toggle_cell s i j)"
| "exec Clear s = clear s"
| "exec (Randomize draw) s = randomize s draw"

fun run :: "op list \<Rightarrow> GameOfLife \<Rightarrow> GameOfLife" where
  "run [] s = s"
| "run (x # xs) s = run xs (exec x s)"

text \<open>\<open>n\<close> calls of \<open>update\<close>, and \<open>n\<close> calls of \<open>undo\<close> with the list of their
  return values.\<close>

fun steps :: "nat \<Rightarrow> GameOfLife \<Rightarrow> GameOfLife" where
  "steps 0 s = s"
| "steps (Suc n) s = steps n (snd (update s))"

fun undos :: "nat \<Rightarrow> GameOfLife \<Rightarrow> bool list \<times> GameOfLife" where
  "undos 0 s = ([], s)"
| "undos (Suc n) s =
     (case undo s of (b, s') \<Rightarrow> (case undos n s' of (bs, s'') \<Rightarrow> (b # bs, s'')))"


section \<open>MainWindow: loading a state and stamping a pattern\<close>

text \<open>
  \<open>GameView.draw_grid\<close>, which \<open>load_state\<close> and \<open>apply_pattern\<close> call last. Of the
  drawing only its reads of the engine matter here: it reads \<open>game.grid[i, j]\<close> for
  every \<open>i\<close> in \<open>range(game.height)\<close> and \<open>j\<close> in \<open>range(game.width)\<close>, changes
  nothing of the engine, and raises when a read does.
\<close>

definition draw_grid :: "GameOfLife \<Rightarrow> error option" where
  "draw_grid game =
     (case for_loop [0..<height game]
             (\<lambda>i. for_loop [0..<width game]
                (\<lambda>j u. case getitem (grid game) (int i) (int j) of
                          Inl e \<Rightarrow> Inl e
                        | Inr c \<Rightarrow> Inr u)) () of
        Inl e \<Rightarrow> Some e
      | Inr u \<Rightarrow> None)"

text \<open>
  \<open>load_state\<close>. The file dialog and \<open>np.load\<close> are outside the engine; their outcome
  is the parameter: \<open>None\<close> when the dialog gives no file name, \<open>Some (Inl e)\<close> when
  \<open>np.load\<close> raises \<open>e\<close>, \<open>Some (Inr a)\<close> when it returns the array \<open>a\<close>.
\<close>

definition load_state :: "GameOfLife \<Rightarrow> (error + ndarray) option \<Rightarrow> error option \<times> GameOfLife" where
  "load_state s file =
     (case file of
        None \<Rightarrow> (None, s)
      | Some (Inl e) \<Rightarrow> (Some e, s)
      | Some (Inr a) \<Rightarrow> (draw_grid (s\<lparr>grid := a\<rparr>), s\<lparr>grid := a\<rparr>))"

text \<open>The clamp of \<open>apply_pattern\<close>: \<open>max(0, min(i, extent - size))\<close>.\<close>

definition clamp_origin :: "int \<Rightarrow> nat \<Rightarrow> nat \<Rightarrow> int" where
  "clamp_origin i extent sz = max 0 (min i (int extent - int sz))"

text \<open>
  \<open>apply_pattern\<close> on the pattern's matrix \<open>p\<close>. \<open>ci\<close> and \<open>cj\<close> are the row and column
  of the cell at the centre of the view, which the view computes.
\<close>

definition apply_pattern :: "GameOfLife \<Rightarrow> ndarray \<Rightarrow> int \<Rightarrow> int \<Rightarrow> error option \<times> GameOfLife" where
  "apply_pattern s p ci cj =
     (let ph = length p;
          pw = ncols p;
          i = clamp_origin (ci - int ph div 2) (height s) ph;
          j = clamp_origin (cj - int pw div 2) (width s) pw
      in case setslice (grid s) (nat i) (nat (i + int ph)) (nat j) (nat (j + int pw)) p of
           Inl e \<Rightarrow> (Some e, s)
         | Inr g \<Rightarrow> (draw_grid (s\<lparr>grid := g\<rparr>), s\<lparr>grid := g\<rparr>))"


section \<open>The function game_of_life of GameOfLife.py\<close>

text \<open>
  \<open>n\<close> and \<open>m\<close> are the module's globals. The neighbour count is the sum of eight
  reads; \<open>i-1\<close> and \<open>j-1\<close> become \<open>-1\<close> in row or column 0, which numpy reads from the
  end, and \<open>%\<close> is only evaluated inside the loops, where \<open>n\<close> and \<open>m\<close> are positive.
\<close>

definition neighbors :: "nat \<Rightarrow> nat \<Rightarrow> ndarray \<Rightarrow> nat \<Rightarrow> nat \<Rightarrow> error + int" where
  "neighbors n m a i j =
     (let up = int i - 1; down = (int i + 1) mod int n;
          left = int j - 1; right = (int j + 1) mod int m
      in add_err (add_err (add_err (add_err (add_err (add_err (add_err
           (getitem a up left) (getitem a up (int j))) (getitem a up right))
           (getitem a (int i) left)) (getitem a (int i) right))
           (getitem a down left)) (getitem a down (int j))) (getitem a down right))"

definition life_cell :: "nat \<Rightarrow> nat \<Rightarrow> ndarray \<Rightarrow> nat \<Rightarrow> nat \<Rightarrow> ndarray \<Rightarrow> error + ndarray" where
  "life_cell n m a i j new_grid =
     (case neighbors n m a i j of
        Inl e \<Rightarrow> Inl e
      | Inr nb \<Rightarrow>
          (case getitem a (int i) (int j) of
             Inl e \<Rightarrow> Inl e
           | Inr c \<Rightarrow>
               if c = 1 then
                 (if nb < 2 \<or> nb > 3 then setitem new_grid (int i) (int j) 0
                  else Inr new_grid)
               else if nb = 3 then setitem new_grid (int i) (int j) 1
               else Inr new_grid))"

definition game_of_life :: "nat \<Rightarrow> nat \<Rightarrow> ndarray \<Rightarrow> error + ndarray" where
  "game_of_life n m a =
     for_loop [0..<n] (\<lambda>i. for_loop [0..<m] (\<lambda>j. life_cell n m a i j)) a"


section \<open>The specification's vocabulary\<close>

text \<open>
  These definitions follow the specification's words, for comparison with the code.
  The transition rule of its RuleEngine, on cell states 0 (DEAD) and 1 (ALIVE):
\<close>

definition next_state_spec :: "int \<Rightarrow> int \<Rightarrow> int" where
  "next_state_spec current cnt =
     (if current = 1 then (if cnt = 2 \<or> cnt = 3 then 1 else 0)
      else (if cnt = 3 then 1 else 0))"

text \<open>The eight offsets of the Moore neighbourhood, and the two boundary policies of
  its NeighborCounter: positions taken modulo the extent (wrap), positions outside the
  grid left out (clamp).\<close>

definition moore_offsets :: "(int \<times> int) list" where
  "moore_offsets = [(-1, -1), (-1, 0), (-1, 1), (0, -1), (0, 1), (1, -1), (1, 0), (1, 1)]"

definition wrap_count_spec :: "ndarray \<Rightarrow> nat \<Rightarrow> nat \<Rightarrow> nat \<Rightarrow> nat \<Rightarrow> int" where
  "wrap_count_spec a h w i j =
     int (length (filter
       (\<lambda>(di, dj). a ! nat ((int i + di) mod int h) ! nat ((int j + dj) mod int w) = 1)
       moore_offsets))"

definition clamp_count_spec :: "ndarray \<Rightarrow> nat \<Rightarrow> nat \<Rightarrow> nat \<Rightarrow> nat \<Rightarrow> int" where
  "clamp_count_spec a h w i j =
     int (length (filter
       (\<lambda>(di, dj). 0 \<le> int i + di \<and> int i + di < int h \<and> 0 \<le> int j + dj \<and> int j + dj < int w
                    \<and> a ! nat (int i + di) ! nat (int j + dj) = 1)
       moore_offsets))"

text \<open>The dead grid of its first testable property.\<close>

definition all_dead :: "ndarray \<Rightarrow> bool" where
  "all_dead a \<longleftrightarrow> (\<forall>row \<in> set a. \<forall>v \<in> set row. v = 0)"

section \<open>Notions for the proofs\<close>

text \<open>The array \<open>a\<close> with the cell at \<open>(i, j)\<close> replaced by \<open>v\<close>.\<close>

definition with_cell :: "ndarray \<Rightarrow> nat \<Rightarrow> nat \<Rightarrow> int \<Rightarrow> ndarray" where
  "with_cell a i j v = a[i := (a ! i)[j := v]]"

text \<open>An engine whose grid has the shape its \<open>height\<close> and \<open>width\<close> announce.\<close>

definition consistent :: "GameOfLife \<Rightarrow> bool" where
  "consistent s \<longleftrightarrow> shape_ok (grid s) (height s) (width s)"

text \<open>What the loop body of \<open>update\<close> leaves in a cell of \<open>new_grid\<close> that held
  \<open>keep\<close>, for the old cell \<open>c\<close> and the count \<open>n\<close>; \<open>life_write\<close> below is the same for
  \<open>game_of_life\<close>, which tests \<open>== 1\<close>.\<close>

definition rule_write :: "int \<Rightarrow> int \<Rightarrow> int \<Rightarrow> int" where
  "rule_write c n keep =
     (if c \<noteq> 0 then (if n < 2 \<or> n > 3 then 0 else keep)
      else if n = 3 then 1 else keep)"

text \<open>The history after the push of \<open>update\<close>.\<close>

definition pushed_history :: "GameOfLife \<Rightarrow> ndarray list" where
  "pushed_history s =
     (if length (history s) < 50 then history s @ [grid s] else tl (history s) @ [grid s])"

text \<open>The indices \<open>max(0, i-1) .. min(n, i+2) - 1\<close> of the window of \<open>_count_neighbors\<close>.\<close>

definition window :: "nat \<Rightarrow> nat \<Rightarrow> nat list" where
  "window i n = (if 0 < i then [i - 1] else []) @ [i] @ (if i + 1 < n then [i + 1] else [])"

definition life_write :: "int \<Rightarrow> int \<Rightarrow> int \<Rightarrow> int" where
  "life_write c n keep =
     (if c = 1 then (if n < 2 \<or> n > 3 then 0 else keep)
      else if n = 3 then 1 else keep)"

text \<open>The invariant of the engine under its own methods.\<close>

definition engine_inv :: "GameOfLife \<Rightarrow> bool" where
  "engine_inv s \<longleftrightarrow>
     consistent s \<and> binary (grid s)
     \<and> (\<forall>g \<in> set (history s). shape_ok g (height s) (width s) \<and> binary g)
     \<and> length (history s) \<le> 50
     \<and> int (length (history s)) \<le> generation s"


section \<open>Array lemmas\<close>

lemma np_index_in_range: "k < n \<Longrightarrow> np_index n (int k) = Inr k"
  by (simp add: np_index_def)

lemma shape_ok_row: "shape_ok a h w \<Longrightarrow> i < h \<Longrightarrow> length (a ! i) = w"
  by (simp add: shape_ok_def)

lemma getitem_ok:
  "shape_ok a h w \<Longrightarrow> i < h \<Longrightarrow> j < w \<Longrightarrow> getitem a (int i) (int j) = Inr (a ! i ! j)"
  by (simp add: getitem_def shape_ok_def np_index_in_range)

lemma setitem_ok:
  "shape_ok a h w \<Longrightarrow> i < h \<Longrightarrow> j < w \<Longrightarrow> setitem a (int i) (int j) v = Inr (with_cell a i j v)"
  by (simp add: setitem_def shape_ok_def np_index_in_range with_cell_def)

lemma shape_ok_with_cell: "shape_ok a h w \<Longrightarrow> shape_ok (with_cell a i j v) h w"
proof -
  assume a: "shape_ok a h w"
  have "length row = w" if "row \<in> set (a[i := (a ! i)[j := v]])" for row
  proof -
    from that have "row = (a ! i)[j := v] \<and> i < length a \<or> row \<in> set a"
      by (cases "i < length a") (auto simp: list_update_beyond dest: subsetD[OF set_update_subset_insert])
    with a show ?thesis by (auto simp: shape_ok_def)
  qed
  with a show ?thesis by (simp add: shape_ok_def with_cell_def)
qed

lemma with_cell_nth:
  "shape_ok a h w \<Longrightarrow> r < h \<Longrightarrow> c < w \<Longrightarrow>
   with_cell a i j v ! r ! c = (if r = i \<and> c = j then v else a ! r ! c)"
  by (cases "r = i") (auto simp: shape_ok_def with_cell_def)


section \<open>Loops that write one cell per iteration\<close>

lemma with_cell_same: "with_cell a i j (a ! i ! j) = a"
  by (simp add: with_cell_def)

lemma for_loop_inner:
  assumes body: "\<And>acc j. shape_ok acc h w \<Longrightarrow> j < w \<Longrightarrow>
                   body j acc = Inr (with_cell acc i j (W j (acc ! i ! j)))"
    and i: "i < h"
  shows "shape_ok acc h w \<Longrightarrow> distinct js \<Longrightarrow> \<forall>j\<in>set js. j < w \<Longrightarrow>
     \<exists>acc'. for_loop js body acc = Inr acc' \<and> shape_ok acc' h w \<and>
        (\<forall>r<h. \<forall>c<w. acc' ! r ! c =
            (if r = i \<and> c \<in> set js then W c (acc ! r ! c) else acc ! r ! c))"
proof (induction js arbitrary: acc)
  case Nil
  then show ?case by simp
next
  case (Cons j js)
  let ?acc1 = "with_cell acc i j (W j (acc ! i ! j))"
  have j: "j < w" and nj: "j \<notin> set js" using Cons.prems by auto
  have b: "body j acc = Inr ?acc1" using body Cons.prems(1) j by simp
  have s1: "shape_ok ?acc1 h w" using Cons.prems(1) by (rule shape_ok_with_cell)
  from Cons.IH[OF s1] Cons.prems obtain acc' where
    l: "for_loop js body ?acc1 = Inr acc'" and s': "shape_ok acc' h w" and
    v: "\<forall>r<h. \<forall>c<w. acc' ! r ! c =
            (if r = i \<and> c \<in> set js then W c (?acc1 ! r ! c) else ?acc1 ! r ! c)"
    by auto
  have "\<forall>r<h. \<forall>c<w. acc' ! r ! c =
            (if r = i \<and> c \<in> set (j # js) then W c (acc ! r ! c) else acc ! r ! c)"
    using v nj by (auto simp: with_cell_nth[OF Cons.prems(1)])
  with l s' b show ?case by simp
qed

lemma for_loop_outer:
  assumes body: "\<And>acc i j. shape_ok acc h w \<Longrightarrow> i < h \<Longrightarrow> j < w \<Longrightarrow>
                   body i j acc = Inr (with_cell acc i j (W i j (acc ! i ! j)))"
  shows "shape_ok acc h w \<Longrightarrow> distinct ks \<Longrightarrow> \<forall>i\<in>set ks. i < h \<Longrightarrow>
     \<exists>acc'. for_loop ks (\<lambda>i. for_loop [0..<w] (body i)) acc = Inr acc' \<and> shape_ok acc' h w \<and>
        (\<forall>r<h. \<forall>c<w. acc' ! r ! c =
            (if r \<in> set ks then W r c (acc ! r ! c) else acc ! r ! c))"
proof (induction ks arbitrary: acc)
  case Nil
  then show ?case by simp
next
  case (Cons i ks)
  have i: "i < h" and ni: "i \<notin> set ks" using Cons.prems by auto
  have "\<exists>acc1. for_loop [0..<w] (body i) acc = Inr acc1 \<and> shape_ok acc1 h w \<and>
        (\<forall>r<h. \<forall>c<w. acc1 ! r ! c =
            (if r = i \<and> c \<in> set [0..<w] then W i c (acc ! r ! c) else acc ! r ! c))"
    by (rule for_loop_inner[where W = "W i", OF body[OF _ i] i Cons.prems(1)]) auto
  then obtain acc1 where
    l1: "for_loop [0..<w] (body i) acc = Inr acc1" and s1: "shape_ok acc1 h w" and
    v1: "\<forall>r<h. \<forall>c<w. acc1 ! r ! c = (if r = i then W i c (acc ! r ! c) else acc ! r ! c)"
    by auto
  from Cons.IH[OF s1] Cons.prems obtain acc' where
    l: "for_loop ks (\<lambda>i. for_loop [0..<w] (body i)) acc1 = Inr acc'" and s': "shape_ok acc' h w" and
    v: "\<forall>r<h. \<forall>c<w. acc' ! r ! c =
            (if r \<in> set ks then W r c (acc1 ! r ! c) else acc1 ! r ! c)"
    by auto
  have "\<forall>r<h. \<forall>c<w. acc' ! r ! c =
            (if r \<in> set (i # ks) then W r c (acc ! r ! c) else acc ! r ! c)"
    using v v1 ni by auto
  with l s' l1 show ?case by simp
qed

lemma for_loop_grid:
  assumes body: "\<And>acc i j. shape_ok acc h w \<Longrightarrow> i < h \<Longrightarrow> j < w \<Longrightarrow>
                   body i j acc = Inr (with_cell acc i j (W i j (acc ! i ! j)))"
    and s: "shape_ok a h w"
  shows "\<exists>a'. for_loop [0..<h] (\<lambda>i. for_loop [0..<w] (body i)) a = Inr a' \<and> shape_ok a' h w \<and>
        (\<forall>r<h. \<forall>c<w. a' ! r ! c = W r c (a ! r ! c))"
  using for_loop_outer[where W = W and body = body and ks = "[0..<h]", OF body s] by simp

section \<open>The step of the engine and the clamp count\<close>

lemma count_neighbors_ok:
  "consistent s \<Longrightarrow> i < height s \<Longrightarrow> j < width s \<Longrightarrow>
   count_neighbors s i j =
     Inr (np_sum (slice2 (grid s) (i - 1) (min (height s) (i + 2)) (j - 1) (min (width s) (j + 2)))
          - grid s ! i ! j)"
proof -
  assume a: "consistent s" "i < height s" "j < width s"
  have n: "nat (max 0 (int i - 1)) = i - 1" "nat (max 0 (int j - 1)) = j - 1" by auto
  show ?thesis
    using a by (simp add: count_neighbors_def consistent_def getitem_ok n)
qed

lemma update_cell_ok:
  assumes "consistent s" "shape_ok acc (height s) (width s)" "i < height s" "j < width s"
  shows "update_cell s i j acc =
     Inr (with_cell acc i j (rule_write (grid s ! i ! j) (projr (count_neighbors s i j)) (acc ! i ! j)))"
  using assms
  by (simp add: update_cell_def count_neighbors_ok getitem_ok[OF assms(1)[unfolded consistent_def]]
      setitem_ok rule_write_def with_cell_same)

lemma update_history: "history (snd (update s)) = pushed_history s"
  by (cases "history s") (auto simp: update_def pushed_history_def Let_def split: sum.splits)

lemma update_cell_history: "update_cell (s\<lparr>history := x\<rparr>) = update_cell s"
  by (intro ext) (simp add: update_cell_def count_neighbors_def cong: sum.case_cong)

lemma update_ok:
  assumes "consistent s"
  shows "\<exists>g. update s = (None, s\<lparr>history := pushed_history s, grid := g, generation := generation s + 1\<rparr>)
           \<and> shape_ok g (height s) (width s)
           \<and> (\<forall>r<height s. \<forall>c<width s.
                 g ! r ! c = rule_write (grid s ! r ! c) (projr (count_neighbors s r c)) (grid s ! r ! c))"
proof -
  let ?h = "if length (history s @ [grid s]) > 50 then tl (history s @ [grid s]) else history s @ [grid s]"
  have h: "?h = pushed_history s"
    by (cases "history s") (auto simp: pushed_history_def)
  have sh: "shape_ok (grid s) (height s) (width s)" using assms by (simp add: consistent_def)
  have body: "\<And>acc i j. shape_ok acc (height s) (width s) \<Longrightarrow> i < height s \<Longrightarrow> j < width s \<Longrightarrow>
      update_cell s i j acc =
       Inr (with_cell acc i j (rule_write (grid s ! i ! j) (projr (count_neighbors s i j)) (acc ! i ! j)))"
    using update_cell_ok[OF assms] by simp
  have "\<exists>g. for_loop [0..<height s] (\<lambda>i. for_loop [0..<width s] (update_cell s i)) (grid s) = Inr g
          \<and> shape_ok g (height s) (width s)
          \<and> (\<forall>r<height s. \<forall>c<width s.
                 g ! r ! c = rule_write (grid s ! r ! c) (projr (count_neighbors s r c)) (grid s ! r ! c))"
    using for_loop_grid[where body = "update_cell s"
        and W = "\<lambda>i j v. rule_write (grid s ! i ! j) (projr (count_neighbors s i j)) v",
        OF body sh] by simp
  then obtain g where
    l: "for_loop [0..<height s] (\<lambda>i. for_loop [0..<width s] (update_cell s i)) (grid s) = Inr g"
    and rest: "shape_ok g (height s) (width s)"
       "\<forall>r<height s. \<forall>c<width s.
                 g ! r ! c = rule_write (grid s ! r ! c) (projr (count_neighbors s r c)) (grid s ! r ! c)"
    by blast
  have "update s = (None, s\<lparr>history := pushed_history s, grid := g, generation := generation s + 1\<rparr>)"
    unfolding update_def Let_def update_cell_history l h by simp
  with rest show ?thesis by blast
qed

lemma window_upt: "i < n \<Longrightarrow> [i - 1..<min n (i + 2)] = window i n"
  by (cases i) (auto simp: window_def upt_conv_Cons min_def upt_rec[of "Suc _" "Suc (Suc _)"])

lemma drop_take_nth: "b \<le> length xs \<Longrightarrow> drop a (take b xs) = map ((!) xs) [a..<b]"
  by (simp add: list_eq_iff_nth_eq min_def)

lemma window_set: "i < n \<Longrightarrow> k \<in> set (window i n) \<Longrightarrow> k < n"
  by (auto simp: window_def split: if_splits)

lemma slice2_window:
  assumes "shape_ok a h w" "i < h" "j < w"
  shows "slice2 a (i - 1) (min h (i + 2)) (j - 1) (min w (j + 2))
         = map (\<lambda>r. map (\<lambda>c. a ! r ! c) (window j w)) (window i h)"
proof -
  have rows: "drop (i - 1) (take (min h (i + 2)) a) = map ((!) a) (window i h)"
    using assms window_upt[of i h] by (simp add: drop_take_nth shape_ok_def)
  have cols: "drop (j - 1) (take (min w (j + 2)) (a ! r)) = map ((!) (a ! r)) (window j w)"
    if "r \<in> set (window i h)" for r
  proof -
    have "r < h" using that assms(2) by (rule window_set[rotated])
    then have "length (a ! r) = w" using assms(1) by (simp add: shape_ok_row)
    then show ?thesis using assms(3) window_upt[of j w] by (simp add: drop_take_nth)
  qed
  show ?thesis unfolding slice2_def rows using cols by simp
qed

lemma window_sum_offsets:
  fixes B :: "nat \<Rightarrow> nat \<Rightarrow> int"
  assumes "i < h" "j < w"
  shows "(\<Sum>r\<leftarrow>window i h. \<Sum>c\<leftarrow>window j w. B r c) - B i j
       = (\<Sum>(di, dj)\<leftarrow>moore_offsets.
            if 0 \<le> int i + di \<and> int i + di < int h \<and> 0 \<le> int j + dj \<and> int j + dj < int w
            then B (nat (int i + di)) (nat (int j + dj)) else 0)"
proof -
  have n: "nat (int i + 1) = i + 1" "nat (int j + 1) = j + 1"
     "nat (int i - 1) = i - 1" "nat (int j - 1) = j - 1" by auto
  show ?thesis
    using assms by (cases "0 < i"; cases "i + 1 < h"; cases "0 < j"; cases "j + 1 < w")
      (simp_all add: window_def moore_offsets_def n)
qed

lemma binary_cell:
  "binary a \<Longrightarrow> shape_ok a h w \<Longrightarrow> r < h \<Longrightarrow> c < w \<Longrightarrow> a ! r ! c = 0 \<or> a ! r ! c = 1"
proof -
  assume a: "binary a" "shape_ok a h w" "r < h" "c < w"
  then have "a ! r \<in> set a" and "a ! r ! c \<in> set (a ! r)"
    by (auto simp: shape_ok_def)
  with a(1) show ?thesis unfolding binary_def by blast
qed

lemma count_neighbors_window:
  assumes "consistent s" "i < height s" "j < width s"
  shows "count_neighbors s i j =
     Inr ((\<Sum>(di, dj)\<leftarrow>moore_offsets.
            if 0 \<le> int i + di \<and> int i + di < int (height s) \<and> 0 \<le> int j + dj \<and> int j + dj < int (width s)
            then grid s ! nat (int i + di) ! nat (int j + dj) else 0))"
proof -
  have sh: "shape_ok (grid s) (height s) (width s)" using assms(1) by (simp add: consistent_def)
  have "np_sum (slice2 (grid s) (i - 1) (min (height s) (i + 2)) (j - 1) (min (width s) (j + 2)))
        = (\<Sum>r\<leftarrow>window i (height s). \<Sum>c\<leftarrow>window j (width s). grid s ! r ! c)"
    unfolding np_sum_def slice2_window[OF sh assms(2,3)] by (simp add: comp_def)
  then show ?thesis
    using window_sum_offsets[OF assms(2,3), of "\<lambda>r c. grid s ! r ! c"]
    by (simp add: count_neighbors_ok[OF assms])
qed

lemma length_filter_sum_prod:
  "int (length (filter (\<lambda>(x, y). P x y) xs)) = (\<Sum>(x, y)\<leftarrow>xs. if P x y then 1 else 0)"
  by (induction xs) auto

lemma count_neighbors_clamp:
  assumes "consistent s" "binary (grid s)" "i < height s" "j < width s"
  shows "count_neighbors s i j = Inr (clamp_count_spec (grid s) (height s) (width s) i j)"
proof -
  have sh: "shape_ok (grid s) (height s) (width s)" using assms(1) by (simp add: consistent_def)
  have b: "grid s ! r ! c = (if grid s ! r ! c = 1 then 1 else 0)" if "r < height s" "c < width s" for r c
    using binary_cell[OF assms(2) sh that] by auto
  have eq: "(\<Sum>(di, dj)\<leftarrow>moore_offsets.
            if 0 \<le> int i + di \<and> int i + di < int (height s) \<and> 0 \<le> int j + dj \<and> int j + dj < int (width s)
            then grid s ! nat (int i + di) ! nat (int j + dj) else 0)
      = (\<Sum>(di, dj)\<leftarrow>moore_offsets.
            if 0 \<le> int i + di \<and> int i + di < int (height s) \<and> 0 \<le> int j + dj \<and> int j + dj < int (width s)
               \<and> grid s ! nat (int i + di) ! nat (int j + dj) = 1
            then 1 else 0)"
  proof (rule arg_cong[where f = sum_list], rule map_cong[OF refl], clarify)
    fix di dj :: int
    show "(if 0 \<le> int i + di \<and> int i + di < int (height s) \<and> 0 \<le> int j + dj \<and> int j + dj < int (width s)
            then grid s ! nat (int i + di) ! nat (int j + dj) else 0)
        = (if 0 \<le> int i + di \<and> int i + di < int (height s) \<and> 0 \<le> int j + dj \<and> int j + dj < int (width s)
               \<and> grid s ! nat (int i + di) ! nat (int j + dj) = 1
            then 1 else 0)"
      using b[of "nat (int i + di)" "nat (int j + dj)"] by auto
  qed
  have "clamp_count_spec (grid s) (height s) (width s) i j
      = (\<Sum>(di, dj)\<leftarrow>moore_offsets.
            if 0 \<le> int i + di \<and> int i + di < int (height s) \<and> 0 \<le> int j + dj \<and> int j + dj < int (width s)
               \<and> grid s ! nat (int i + di) ! nat (int j + dj) = 1
            then 1 else 0)"
    unfolding clamp_count_spec_def by (rule length_filter_sum_prod)
  then show ?thesis
    unfolding count_neighbors_window[OF assms(1,3,4)] eq by simp
qed

lemma count_neighbors_excludes_self:
  assumes "consistent s" "i < height s" "j < width s"
  shows "count_neighbors (s\<lparr>grid := with_cell (grid s) i j v\<rparr>) i j = count_neighbors s i j"
proof -
  let ?s' = "s\<lparr>grid := with_cell (grid s) i j v\<rparr>"
  have sh: "shape_ok (grid s) (height s) (width s)" using assms(1) by (simp add: consistent_def)
  have w': "consistent ?s'"
    using shape_ok_with_cell[OF sh] by (simp add: consistent_def)
  have eq: "(\<Sum>(di, dj)\<leftarrow>moore_offsets.
            if 0 \<le> int i + di \<and> int i + di < int (height s) \<and> 0 \<le> int j + dj \<and> int j + dj < int (width s)
            then with_cell (grid s) i j v ! nat (int i + di) ! nat (int j + dj) else 0)
      = (\<Sum>(di, dj)\<leftarrow>moore_offsets.
            if 0 \<le> int i + di \<and> int i + di < int (height s) \<and> 0 \<le> int j + dj \<and> int j + dj < int (width s)
            then grid s ! nat (int i + di) ! nat (int j + dj) else 0)"
    by (rule arg_cong[where f = sum_list], rule map_cong[OF refl])
       (auto simp: moore_offsets_def with_cell_nth[OF sh] nat_eq_iff)
  have "count_neighbors ?s' i j = Inr (\<Sum>(di, dj)\<leftarrow>moore_offsets.
            if 0 \<le> int i + di \<and> int i + di < int (height s) \<and> 0 \<le> int j + dj \<and> int j + dj < int (width s)
            then with_cell (grid s) i j v ! nat (int i + di) ! nat (int j + dj) else 0)"
    using count_neighbors_window[OF w', of i j] assms by (simp cong: if_cong)
  then show ?thesis
    unfolding eq count_neighbors_window[OF assms] .
qed

lemma clamp_count_spec_range:
  "0 \<le> clamp_count_spec a h w i j \<and> clamp_count_spec a h w i j \<le> 8"
proof -
  have "length (filter P moore_offsets) \<le> 8" for P
    using length_filter_le[of P moore_offsets] by (simp add: moore_offsets_def)
  then show ?thesis by (simp add: clamp_count_spec_def)
qed

lemma wrap_count_spec_range:
  "0 \<le> wrap_count_spec a h w i j \<and> wrap_count_spec a h w i j \<le> 8"
proof -
  have "length (filter P moore_offsets) \<le> 8" for P
    using length_filter_le[of P moore_offsets] by (simp add: moore_offsets_def)
  then show ?thesis by (simp add: wrap_count_spec_def)
qed

section \<open>The wrap count of game_of_life\<close>

lemma np_index_wrap:
  assumes "- int n \<le> x" "x < int n"
  shows "np_index n x = Inr (nat (x mod int n))"
proof (cases "0 \<le> x")
  case True
  with assms show ?thesis by (simp add: np_index_def)
next
  case False
  then have "x mod int n = (x + int n) mod int n" by simp
  also have "\<dots> = x + int n" using assms False by (intro mod_pos_pos_trivial) auto
  finally show ?thesis using assms False by (simp add: np_index_def)
qed

lemma getitem_wrap:
  assumes "shape_ok a h w" "- int h \<le> x" "x < int h" "- int w \<le> y" "y < int w"
  shows "getitem a x y = Inr (a ! nat (x mod int h) ! nat (y mod int w))"
proof -
  have h: "0 < h" using assms(2,3) by auto
  then have "nat (x mod int h) < h" by (simp add: nat_less_iff)
  then have "length (a ! nat (x mod int h)) = w" using assms(1) by (simp add: shape_ok_row)
  moreover have "length a = h" using assms(1) by (simp add: shape_ok_def)
  ultimately show ?thesis
    by (simp add: getitem_def np_index_wrap[OF assms(2,3)] np_index_wrap[OF assms(4,5)])
qed

lemma neighbors_ok:
  assumes "shape_ok a n m" "i < n" "j < m"
  shows "neighbors n m a i j =
     Inr (\<Sum>(di, dj)\<leftarrow>moore_offsets. a ! nat ((int i + di) mod int n) ! nat ((int j + dj) mod int m))"
proof -
  have r: "- int n \<le> int i - 1" "int i - 1 < int n" "- int n \<le> int i" "int i < int n"
      "- int n \<le> (int i + 1) mod int n" "(int i + 1) mod int n < int n"
    using assms(2) by (auto intro: order_trans[of _ 0])
  have c: "- int m \<le> int j - 1" "int j - 1 < int m" "- int m \<le> int j" "int j < int m"
      "- int m \<le> (int j + 1) mod int m" "(int j + 1) mod int m < int m"
    using assms(3) by (auto intro: order_trans[of _ 0])
  have g: "getitem a (int i - 1) (int j - 1) = Inr (a ! nat ((int i - 1) mod int n) ! nat ((int j - 1) mod int m))"
     "getitem a (int i - 1) (int j) = Inr (a ! nat ((int i - 1) mod int n) ! nat (int j mod int m))"
     "getitem a (int i - 1) ((int j + 1) mod int m) = Inr (a ! nat ((int i - 1) mod int n) ! nat ((int j + 1) mod int m))"
     "getitem a (int i) (int j - 1) = Inr (a ! nat (int i mod int n) ! nat ((int j - 1) mod int m))"
     "getitem a (int i) ((int j + 1) mod int m) = Inr (a ! nat (int i mod int n) ! nat ((int j + 1) mod int m))"
     "getitem a ((int i + 1) mod int n) (int j - 1) = Inr (a ! nat ((int i + 1) mod int n) ! nat ((int j - 1) mod int m))"
     "getitem a ((int i + 1) mod int n) (int j) = Inr (a ! nat ((int i + 1) mod int n) ! nat (int j mod int m))"
     "getitem a ((int i + 1) mod int n) ((int j + 1) mod int m) = Inr (a ! nat ((int i + 1) mod int n) ! nat ((int j + 1) mod int m))"
    using getitem_wrap[OF assms(1) r(1,2) c(1,2)] getitem_wrap[OF assms(1) r(1,2) c(3,4)]
      getitem_wrap[OF assms(1) r(1,2) c(5,6)] getitem_wrap[OF assms(1) r(3,4) c(1,2)]
      getitem_wrap[OF assms(1) r(3,4) c(5,6)] getitem_wrap[OF assms(1) r(5,6) c(1,2)]
      getitem_wrap[OF assms(1) r(5,6) c(3,4)] getitem_wrap[OF assms(1) r(5,6) c(5,6)]
    by simp_all
  show ?thesis
    unfolding neighbors_def Let_def g by (simp add: add_err_def moore_offsets_def)
qed

lemma wrap_index_less: "i < n \<Longrightarrow> nat ((int i + d) mod int n) < n"
  by (simp add: nat_less_iff)

lemma wrap_index_neq:
  assumes "2 \<le> n" "i < n"
  shows "nat ((int i + 1) mod int n) \<noteq> i" "nat ((int i + - 1) mod int n) \<noteq> i"
proof -
  show "nat ((int i + 1) mod int n) \<noteq> i"
  proof (cases "i + 1 < n")
    case True
    then have "(int i + 1) mod int n = int i + 1" by (intro mod_pos_pos_trivial) auto
    then show ?thesis by simp
  next
    case False
    then have "int i + 1 = int n" using assms by auto
    then have "(int i + 1) mod int n = 0" by simp
    then show ?thesis using assms False by auto
  qed
  show "nat ((int i + - 1) mod int n) \<noteq> i"
  proof (cases "0 < i")
    case True
    then have "(int i + - 1) mod int n = int i + - 1" using assms by (intro mod_pos_pos_trivial) auto
    then show ?thesis using True by auto
  next
    case False
    then have "(int i + - 1) mod int n = (- 1 + int n) mod int n" by simp
    also have "\<dots> = - 1 + int n" using assms by (intro mod_pos_pos_trivial) auto
    finally show ?thesis using assms False by auto
  qed
qed

lemma neighbors_wrap:
  assumes "shape_ok a n m" "binary a" "i < n" "j < m"
  shows "neighbors n m a i j = Inr (wrap_count_spec a n m i j)"
proof -
  have eq: "(\<Sum>(di, dj)\<leftarrow>moore_offsets. a ! nat ((int i + di) mod int n) ! nat ((int j + dj) mod int m))
      = (\<Sum>(di, dj)\<leftarrow>moore_offsets.
           if a ! nat ((int i + di) mod int n) ! nat ((int j + dj) mod int m) = 1 then 1 else 0)"
  proof (rule arg_cong[where f = sum_list], rule map_cong[OF refl], clarify)
    fix di dj :: int
    show "a ! nat ((int i + di) mod int n) ! nat ((int j + dj) mod int m)
        = (if a ! nat ((int i + di) mod int n) ! nat ((int j + dj) mod int m) = 1 then 1 else 0)"
      using binary_cell[OF assms(2,1) wrap_index_less[OF assms(3)] wrap_index_less[OF assms(4)], of di dj]
      by auto
  qed
  have "wrap_count_spec a n m i j
      = (\<Sum>(di, dj)\<leftarrow>moore_offsets.
           if a ! nat ((int i + di) mod int n) ! nat ((int j + dj) mod int m) = 1 then 1 else 0)"
    unfolding wrap_count_spec_def by (rule length_filter_sum_prod)
  then show ?thesis
    unfolding neighbors_ok[OF assms(1,3,4)] eq by simp
qed

lemma neighbors_excludes_self:
  assumes "shape_ok a n m" "i < n" "j < m" "2 \<le> n" "2 \<le> m"
  shows "neighbors n m (with_cell a i j v) i j = neighbors n m a i j"
proof -
  have sh': "shape_ok (with_cell a i j v) n m" using assms(1) by (rule shape_ok_with_cell)
  note ri = wrap_index_neq[OF assms(4,2)] and ci = wrap_index_neq[OF assms(5,3)]
  have lt: "nat ((int i + d) mod int n) < n" "nat ((int j + d) mod int m) < m" for d
    using assms(2,3) by (simp_all add: nat_less_iff)
  have "(\<Sum>(di, dj)\<leftarrow>moore_offsets.
            with_cell a i j v ! nat ((int i + di) mod int n) ! nat ((int j + dj) mod int m))
      = (\<Sum>(di, dj)\<leftarrow>moore_offsets. a ! nat ((int i + di) mod int n) ! nat ((int j + dj) mod int m))"
    using ri ci by (simp add: moore_offsets_def with_cell_nth[OF assms(1) lt])
  then show ?thesis
    unfolding neighbors_ok[OF assms(1,2,3)] neighbors_ok[OF sh' assms(2,3)] by simp
qed

section \<open>Both steps apply the rule\<close>

lemma life_cell_ok:
  assumes "shape_ok a n m" "shape_ok acc n m" "i < n" "j < m"
  shows "life_cell n m a i j acc =
     Inr (with_cell acc i j (life_write (a ! i ! j) (projr (neighbors n m a i j)) (acc ! i ! j)))"
  using assms
  by (simp add: life_cell_def neighbors_ok getitem_ok[OF assms(1)]
      setitem_ok life_write_def with_cell_same)

lemma game_of_life_ok:
  assumes sh: "shape_ok a n m"
  shows "\<exists>g. game_of_life n m a = Inr g \<and> shape_ok g n m
           \<and> (\<forall>r<n. \<forall>c<m.
                 g ! r ! c = life_write (a ! r ! c) (projr (neighbors n m a r c)) (a ! r ! c))"
proof -
  have body: "\<And>acc i j. shape_ok acc n m \<Longrightarrow> i < n \<Longrightarrow> j < m \<Longrightarrow>
      life_cell n m a i j acc =
       Inr (with_cell acc i j (life_write (a ! i ! j) (projr (neighbors n m a i j)) (acc ! i ! j)))"
    using life_cell_ok[OF sh] by simp
  show ?thesis
    unfolding game_of_life_def
    using for_loop_grid[where body = "life_cell n m a"
        and W = "\<lambda>i j v. life_write (a ! i ! j) (projr (neighbors n m a i j)) v",
        OF body sh] by simp
qed

lemma rule_write_binary:
  "c = 0 \<or> c = 1 \<Longrightarrow> rule_write c n c = next_state_spec c n"
  "c = 0 \<or> c = 1 \<Longrightarrow> life_write c n c = next_state_spec c n"
  by (auto simp: rule_write_def life_write_def next_state_spec_def)

lemma all_dead_binary: "all_dead a \<Longrightarrow> binary a"
  by (auto simp: all_dead_def binary_def)

lemma all_dead_cell: "all_dead a \<Longrightarrow> shape_ok a h w \<Longrightarrow> r < h \<Longrightarrow> c < w \<Longrightarrow> a ! r ! c = 0"
proof -
  assume a: "all_dead a" "shape_ok a h w" "r < h" "c < w"
  then have "a ! r \<in> set a" and "a ! r ! c \<in> set (a ! r)"
    by (auto simp: shape_ok_def)
  with a(1) show ?thesis unfolding all_dead_def by blast
qed

lemma all_dead_clamp_count:
  assumes "all_dead a" "shape_ok a h w"
  shows "clamp_count_spec a h w i j = 0"
proof -
  have "a ! nat (int i + di) ! nat (int j + dj) \<noteq> 1"
    if "0 \<le> int i + di" "int i + di < int h" "0 \<le> int j + dj" "int j + dj < int w" for di dj
    using all_dead_cell[OF assms, of "nat (int i + di)" "nat (int j + dj)"] that by auto
  then show ?thesis
    by (auto simp: clamp_count_spec_def filter_empty_conv)
qed

lemma all_dead_wrap_count:
  assumes "all_dead a" "shape_ok a h w" "i < h" "j < w"
  shows "wrap_count_spec a h w i j = 0"
proof -
  have "a ! nat ((int i + di) mod int h) ! nat ((int j + dj) mod int w) \<noteq> 1" for di dj
    using all_dead_cell[OF assms(1,2) wrap_index_less[OF assms(3)] wrap_index_less[OF assms(4)], of di dj]
    by auto
  then show ?thesis
    by (auto simp: wrap_count_spec_def filter_empty_conv)
qed

lemma shape_ok_cells_eq:
  assumes "shape_ok a h w" "shape_ok b h w" "\<forall>r<h. \<forall>c<w. a ! r ! c = b ! r ! c"
  shows "a = b"
proof (rule nth_equalityI)
  show "length a = length b" using assms by (simp add: shape_ok_def)
next
  fix r assume r: "r < length a"
  then have rh: "r < h" using assms(1) by (simp add: shape_ok_def)
  have "length (a ! r) = w" "length (b ! r) = w"
    using assms(1,2) rh by (simp_all add: shape_ok_row)
  then show "a ! r = b ! r" using assms(3) rh by (intro nth_equalityI) auto
qed

lemma update_rule:
  assumes "consistent s" "binary (grid s)"
  shows "fst (update s) = None \<and> shape_ok (grid (snd (update s))) (height s) (width s)
       \<and> (\<forall>i<height s. \<forall>j<width s.
            grid (snd (update s)) ! i ! j
              = next_state_spec (grid s ! i ! j) (clamp_count_spec (grid s) (height s) (width s) i j))"
proof -
  have sh: "shape_ok (grid s) (height s) (width s)" using assms(1) by (simp add: consistent_def)
  from update_ok[OF assms(1)] obtain g where
    u: "update s = (None, s\<lparr>history := pushed_history s, grid := g, generation := generation s + 1\<rparr>)"
    and g: "shape_ok g (height s) (width s)"
    and c: "\<forall>r<height s. \<forall>c<width s.
                 g ! r ! c = rule_write (grid s ! r ! c) (projr (count_neighbors s r c)) (grid s ! r ! c)"
    by blast
  have "g ! i ! j = next_state_spec (grid s ! i ! j) (clamp_count_spec (grid s) (height s) (width s) i j)"
    if "i < height s" "j < width s" for i j
    using c that binary_cell[OF assms(2) sh that]
    by (simp add: count_neighbors_clamp[OF assms that] rule_write_binary)
  with u g show ?thesis by simp
qed

lemma game_of_life_rule:
  assumes "shape_ok a n m" "binary a"
  shows "\<exists>g. game_of_life n m a = Inr g \<and> shape_ok g n m
       \<and> (\<forall>i<n. \<forall>j<m. g ! i ! j = next_state_spec (a ! i ! j) (wrap_count_spec a n m i j))"
proof -
  from game_of_life_ok[OF assms(1)] obtain g where
    u: "game_of_life n m a = Inr g" and g: "shape_ok g n m"
    and c: "\<forall>r<n. \<forall>c<m.
                 g ! r ! c = life_write (a ! r ! c) (projr (neighbors n m a r c)) (a ! r ! c)"
    by blast
  have "g ! i ! j = next_state_spec (a ! i ! j) (wrap_count_spec a n m i j)"
    if "i < n" "j < m" for i j
    using c that binary_cell[OF assms(2,1) that]
    by (simp add: neighbors_wrap[OF assms that] rule_write_binary)
  with u g show ?thesis by simp
qed

lemma update_all_dead:
  assumes "consistent s" "all_dead (grid s)"
  shows "grid (snd (update s)) = grid s"
proof -
  have sh: "shape_ok (grid s) (height s) (width s)" using assms(1) by (simp add: consistent_def)
  note r = update_rule[OF assms(1) all_dead_binary[OF assms(2)]]
  have "grid (snd (update s)) ! i ! j = grid s ! i ! j" if "i < height s" "j < width s" for i j
    using r that all_dead_cell[OF assms(2) sh that]
    by (simp add: all_dead_clamp_count[OF assms(2) sh] next_state_spec_def)
  with r sh show ?thesis by (intro shape_ok_cells_eq[of _ "height s" "width s"]) auto
qed

lemma game_of_life_all_dead:
  assumes "shape_ok a n m" "all_dead a"
  shows "game_of_life n m a = Inr a"
proof -
  from game_of_life_rule[OF assms(1) all_dead_binary[OF assms(2)]] obtain g where
    u: "game_of_life n m a = Inr g" and g: "shape_ok g n m"
    and c: "\<forall>i<n. \<forall>j<m. g ! i ! j = next_state_spec (a ! i ! j) (wrap_count_spec a n m i j)"
    by blast
  have "g ! i ! j = a ! i ! j" if "i < n" "j < m" for i j
    using c that all_dead_cell[OF assms(2,1) that]
    by (simp add: all_dead_wrap_count[OF assms(2,1) that] next_state_spec_def)
  with g assms(1) have "g = a" by (intro shape_ok_cells_eq[of _ n m]) auto
  with u show ?thesis by simp
qed

section \<open>The invariant of the engine\<close>

lemma binary_from_cells:
  assumes "shape_ok g h w" "\<forall>r<h. \<forall>c<w. g ! r ! c = 0 \<or> g ! r ! c = 1"
  shows "binary g"
  unfolding binary_def
proof (intro ballI)
  fix row v assume "row \<in> set g" "v \<in> set row"
  then obtain r c where "r < length g" "row = g ! r" "c < length row" "v = row ! c"
    by (auto simp: in_set_conv_nth)
  with assms show "v = 0 \<or> v = 1" by (auto simp: shape_ok_def)
qed

lemma binary_with_cell:
  assumes "binary a" "v = 0 \<or> v = 1"
  shows "binary (with_cell a i j v)"
  unfolding binary_def
proof (intro ballI)
  fix row x assume r: "row \<in> set (with_cell a i j v)" and x: "x \<in> set row"
  from r have "row = (a ! i)[j := v] \<and> i < length a \<or> row \<in> set a"
    unfolding with_cell_def
    by (cases "i < length a") (auto simp: list_update_beyond dest: subsetD[OF set_update_subset_insert])
  then show "x = 0 \<or> x = 1"
  proof
    assume "row = (a ! i)[j := v] \<and> i < length a"
    then have "x = v \<or> x \<in> set (a ! i)" "a ! i \<in> set a"
      using x by (auto dest: subsetD[OF set_update_subset_insert])
    with assms show ?thesis by (auto simp: binary_def)
  next
    assume "row \<in> set a"
    with assms(1) x show ?thesis by (auto simp: binary_def)
  qed
qed

lemma next_state_spec_binary: "next_state_spec c n = 0 \<or> next_state_spec c n = 1"
  by (simp add: next_state_spec_def)

lemma pushed_history_length:
  "length (history s) \<le> 50 \<Longrightarrow> length (pushed_history s) = min 50 (length (history s) + 1)"
  by (cases "history s") (auto simp: pushed_history_def)

lemma pushed_history_set: "set (pushed_history s) \<subseteq> insert (grid s) (set (history s))"
  by (cases "history s") (auto simp: pushed_history_def)

lemma pushed_history_last: "last (pushed_history s) = grid s" "pushed_history s \<noteq> []"
  by (auto simp: pushed_history_def)

lemma update_fields:
  "height (snd (update s)) = height s" "width (snd (update s)) = width s"
  "history (snd (update s)) = pushed_history s"
  "boundary_type (snd (update s)) = boundary_type s"
  by (auto simp: update_def update_history[symmetric] Let_def split: sum.splits)

lemma update_generation:
  "generation (snd (update s)) = (if fst (update s) = None then generation s + 1 else generation s)"
  by (auto simp: update_def Let_def split: sum.splits)

lemma update_inv:
  assumes "engine_inv s"
  shows "engine_inv (snd (update s))" and "fst (update s) = None"
proof -
  have c: "consistent s" "binary (grid s)" using assms by (simp_all add: engine_inv_def)
  note r = update_rule[OF c]
  show n: "fst (update s) = None" using r by simp
  have b: "binary (grid (snd (update s)))"
    using r by (intro binary_from_cells[of _ "height s" "width s"]) (auto simp: next_state_spec_binary)
  have h: "\<forall>g \<in> set (pushed_history s). shape_ok g (height s) (width s) \<and> binary g"
    using pushed_history_set[of s] assms by (auto simp: engine_inv_def consistent_def)
  have l: "length (pushed_history s) \<le> 50" "int (length (pushed_history s)) \<le> generation s + 1"
    using assms by (auto simp: engine_inv_def pushed_history_length)
  show "engine_inv (snd (update s))"
    using r b h l n by (simp add: engine_inv_def consistent_def update_fields update_generation)
qed

lemma toggle_cell_in_range:
  assumes "consistent s" "r < height s" "c < width s"
  shows "toggle_cell s (int r) (int c)
       = (None, s\<lparr>grid := with_cell (grid s) r c (if grid s ! r ! c \<noteq> 0 then 0 else 1)\<rparr>)"
  using assms
  by (simp add: toggle_cell_def consistent_def getitem_ok[of _ "height s" "width s"]
      setitem_ok[of _ "height s" "width s"])

lemma toggle_cell_out_of_range:
  "\<not> (0 \<le> i \<and> i < int (height s) \<and> 0 \<le> j \<and> j < int (width s)) \<Longrightarrow> toggle_cell s i j = (None, s)"
  unfolding toggle_cell_def by (simp only: if_False)

lemma toggle_cell_cases:
  assumes "consistent s"
  shows "toggle_cell s i j = (None, s) \<or>
    (\<exists>r c. r < height s \<and> c < width s \<and> i = int r \<and> j = int c \<and> toggle_cell s i j
       = (None, s\<lparr>grid := with_cell (grid s) r c (if grid s ! r ! c \<noteq> 0 then 0 else 1)\<rparr>))"
proof (cases "0 \<le> i \<and> i < int (height s) \<and> 0 \<le> j \<and> j < int (width s)")
  case True
  then have "nat i < height s" "nat j < width s" "i = int (nat i)" "j = int (nat j)" by auto
  with toggle_cell_in_range[OF assms, of "nat i" "nat j"] show ?thesis by metis
next
  case False
  then show ?thesis by (simp add: toggle_cell_out_of_range)
qed

lemma toggle_cell_inv:
  assumes "engine_inv s"
  shows "engine_inv (snd (toggle_cell s i j))"
proof -
  have c: "consistent s" using assms by (simp add: engine_inv_def)
  from toggle_cell_cases[OF c, of i j] show ?thesis
  proof (elim disjE exE conjE)
    assume "toggle_cell s i j = (None, s)"
    with assms show ?thesis by simp
  next
    fix r c
    assume "toggle_cell s i j
       = (None, s\<lparr>grid := with_cell (grid s) r c (if grid s ! r ! c \<noteq> 0 then 0 else 1)\<rparr>)"
    then show ?thesis
      using assms by (auto simp: engine_inv_def consistent_def shape_ok_with_cell binary_with_cell)
  qed
qed

lemma clear_inv: "engine_inv s \<Longrightarrow> engine_inv (clear s)"
  by (auto simp: engine_inv_def clear_def consistent_def shape_ok_def binary_def)

lemma randomize_inv: "engine_inv s \<Longrightarrow> engine_inv (randomize s draw)"
  by (auto simp: engine_inv_def randomize_def consistent_def shape_ok_def binary_def)

lemma undo_inv: "engine_inv s \<Longrightarrow> engine_inv (snd (undo s))"
proof -
  assume a: "engine_inv s"
  show ?thesis
  proof (cases "history s = []")
    case True
    with a show ?thesis by (simp add: undo_def)
  next
    case False
    then have "last (history s) \<in> set (history s)" "set (butlast (history s)) \<subseteq> set (history s)"
      by (auto dest: in_set_butlastD)
    moreover have "int (length (history s) - 1) \<le> generation s - 1"
      using a False by (cases "history s") (auto simp: engine_inv_def)
    ultimately show ?thesis
      using a False by (auto simp: engine_inv_def undo_def consistent_def)
  qed
qed

lemma init_inv: "engine_inv (GameOfLife_init w h)"
  by (simp add: engine_inv_def GameOfLife_init_def consistent_def shape_ok_def binary_def)

lemma exec_inv: "engine_inv s \<Longrightarrow> engine_inv (exec x s)"
  by (cases x) (simp_all add: update_inv toggle_cell_inv clear_inv randomize_inv undo_inv)

lemma run_inv: "engine_inv s \<Longrightarrow> engine_inv (run ops s)"
  by (induction ops arbitrary: s) (simp_all add: exec_inv)

lemma reachable_inv: "engine_inv (run ops (GameOfLife_init w h))"
  by (rule run_inv[OF init_inv])

section \<open>Undo and the history\<close>

lemma undo_nonempty:
  "history s \<noteq> [] \<Longrightarrow>
   undo s = (True, s\<lparr>grid := last (history s), history := butlast (history s),
                      generation := generation s - 1\<rparr>)"
  by (simp add: undo_def)

lemma undo_empty: "history s = [] \<Longrightarrow> undo s = (False, s)"
  by (simp add: undo_def)

lemma undo_after_update:
  "undo (snd (update s))
     = (True, (snd (update s))\<lparr>grid := grid s, history := butlast (history (snd (update s))),
                 generation := generation (snd (update s)) - 1\<rparr>)"
  using undo_nonempty[of "snd (update s)"] pushed_history_last[of s]
  by (simp add: update_fields)

lemma steps_history_length:
  "length (history s) \<le> 50 \<Longrightarrow> length (history (steps n s)) = min 50 (length (history s) + n)"
proof (induction n arbitrary: s)
  case 0
  then show ?case by simp
next
  case (Suc n)
  have "length (history (snd (update s))) = min 50 (length (history s) + 1)"
    using Suc.prems by (simp add: update_fields pushed_history_length)
  with Suc.IH[of "snd (update s)"] show ?case by auto
qed

lemma undos_results:
  "fst (undos k s) = replicate (min k (length (history s))) True @ replicate (k - length (history s)) False
   \<and> length (history (snd (undos k s))) = length (history s) - k"
proof (induction k arbitrary: s)
  case 0
  then show ?case by simp
next
  case (Suc k)
  show ?case
  proof (cases "history s = []")
    case True
    with Suc.IH[of s] show ?thesis
      by (simp add: undo_empty split: prod.splits) (metis fst_conv snd_conv replicate_Suc)
  next
    case False
    let ?s' = "s\<lparr>grid := last (history s), history := butlast (history s),
                      generation := generation s - 1\<rparr>"
    obtain m where m: "length (history s) = Suc m" using False by (cases "history s") auto
    then have l: "length (history ?s') = m" by simp
    from Suc.IH[of ?s'] l m show ?thesis
      by (simp add: undo_nonempty[OF False] split: prod.splits) (metis fst_conv snd_conv)
  qed
qed

lemma run_append: "run (xs @ ys) s = run ys (run xs s)"
  by (induction xs arbitrary: s) simp_all

lemma toggle_cell_generation: "generation (snd (toggle_cell s i j)) = generation s"
  "history (snd (toggle_cell s i j)) = history s"
  by (auto simp: toggle_cell_def split: sum.splits)

lemma with_cell_twice:
  "i < length a \<Longrightarrow> with_cell (with_cell a i j v) i j (a ! i ! j) = a"
  by (simp add: with_cell_def)

lemma toggle_cell_twice:
  assumes "consistent s" "r < height s" "c < width s" "grid s ! r ! c = 0 \<or> grid s ! r ! c = 1"
  shows "toggle_cell (snd (toggle_cell s (int r) (int c))) (int r) (int c) = (None, s)"
proof -
  let ?v = "if grid s ! r ! c \<noteq> 0 then 0 else 1 :: int"
  let ?s1 = "s\<lparr>grid := with_cell (grid s) r c ?v\<rparr>"
  have sh: "shape_ok (grid s) (height s) (width s)" using assms(1) by (simp add: consistent_def)
  have c1: "consistent ?s1" using shape_ok_with_cell[OF sh] by (simp add: consistent_def)
  have v1: "grid ?s1 ! r ! c = ?v" using with_cell_nth[OF sh assms(2,3), of r c ?v] by simp
  have vb: "(if ?v \<noteq> 0 then 0 else 1) = grid s ! r ! c" using assms(4) by auto
  have len: "r < length (grid s)" using sh assms(2) by (simp add: shape_ok_def)
  have "toggle_cell ?s1 (int r) (int c)
      = (None, ?s1\<lparr>grid := with_cell (grid ?s1) r c (if grid ?s1 ! r ! c \<noteq> 0 then 0 else 1)\<rparr>)"
    using c1 assms(2,3) by (intro toggle_cell_in_range) simp_all
  also have "\<dots> = (None, s)"
    unfolding v1 vb using with_cell_twice[OF len, of c ?v] by simp
  finally show ?thesis by (simp add: toggle_cell_in_range[OF assms(1,2,3)])
qed

lemma undo_generation:
  "generation (snd (undo s)) = (if fst (undo s) then generation s - 1 else generation s)"
  by (simp add: undo_def)

section \<open>Redraw and pattern placement\<close>

lemma for_loop_reads:
  "(\<And>i acc. i \<in> set ks \<Longrightarrow> body i acc = Inr acc) \<Longrightarrow> for_loop ks body acc = Inr acc"
  by (induction ks) simp_all

lemma draw_grid_ok: "consistent s \<Longrightarrow> draw_grid s = None"
proof -
  assume "consistent s"
  then have sh: "shape_ok (grid s) (height s) (width s)" by (simp add: consistent_def)
  have "for_loop [0..<height s]
          (\<lambda>i. for_loop [0..<width s]
             (\<lambda>j u. case getitem (grid s) (int i) (int j) of
                       Inl e \<Rightarrow> Inl e
                     | Inr c \<Rightarrow> Inr u)) () = Inr ()"
    by (intro for_loop_reads) (simp_all add: getitem_ok[OF sh])
  then show ?thesis by (simp add: draw_grid_def)
qed

lemma ncols_shape: "shape_ok a h w \<Longrightarrow> 0 < h \<Longrightarrow> ncols a = w"
  by (cases a) (auto simp: ncols_def shape_ok_def)

lemma setslice_fits:
  assumes a: "shape_ok a h w" and p: "shape_ok p (length p) (ncols p)"
    and r: "r0 + length p \<le> h" and c: "c0 + ncols p \<le> w"
  shows "\<exists>g. setslice a r0 (r0 + length p) c0 (c0 + ncols p) p = Inr g \<and> shape_ok g h w
      \<and> (\<forall>r<h. \<forall>c<w. g ! r ! c =
            (if r0 \<le> r \<and> r < r0 + length p \<and> c0 \<le> c \<and> c < c0 + ncols p
             then p ! (r - r0) ! (c - c0) else a ! r ! c))"
proof -
  let ?ph = "length p" and ?pw = "ncols p"
  have la: "length a = h" using a by (simp add: shape_ok_def)
  have sh: "min (r0 + ?ph) (length a) - min r0 (length a) = ?ph" using r la by simp
  have pw0: "?pw = 0" if "h = 0"
  proof -
    from that r have "p = []" by simp
    then show ?thesis by (simp add: ncols_def)
  qed
  have sw: "min (c0 + ?pw) (ncols a) - min c0 (ncols a) = ?pw"
  proof (cases "h = 0")
    case True
    then show ?thesis using pw0 by simp
  next
    case False
    then have "ncols a = w" using ncols_shape[OF a] by simp
    then show ?thesis using c by simp
  qed
  let ?g = "map (\<lambda>r. if r0 \<le> r \<and> r < r0 + ?ph
                      then map (\<lambda>c. if c0 \<le> c \<and> c < c0 + ?pw
                                     then p ! bidx ?ph (r - r0) ! bidx ?pw (c - c0)
                                     else a ! r ! c)
                           [0..<length (a ! r)]
                      else a ! r)
                [0..<length a]"
  have s: "setslice a r0 (r0 + ?ph) c0 (c0 + ?pw) p = Inr ?g"
    unfolding setslice_def Let_def sh sw by (simp add: broadcastable_def)
  have rows: "length (a ! r) = w" if "r < h" for r using a that by (rule shape_ok_row)
  have g1: "shape_ok ?g h w"
    using la rows by (auto simp: shape_ok_def)
  have b: "bidx ?ph (r - r0) = r - r0" if "r0 \<le> r" "r < r0 + ?ph" for r
    using that by (auto simp: bidx_def)
  have b': "bidx ?pw (c - c0) = c - c0" if "c0 \<le> c" "c < c0 + ?pw" for c
    using that by (auto simp: bidx_def)
  have g2: "?g ! r ! c =
            (if r0 \<le> r \<and> r < r0 + ?ph \<and> c0 \<le> c \<and> c < c0 + ?pw
             then p ! (r - r0) ! (c - c0) else a ! r ! c)" if "r < h" "c < w" for r c
    using that la rows[OF that(1)] by (simp add: b b')
  from s g1 g2 show ?thesis by blast
qed

lemma clamp_origin_range:
  "sz \<le> extent \<Longrightarrow> 0 \<le> clamp_origin i extent sz \<and> clamp_origin i extent sz \<le> int extent - int sz"
  by (simp add: clamp_origin_def)

lemma clamp_origin_oversize: "extent < sz \<Longrightarrow> clamp_origin i extent sz = 0"
  by (simp add: clamp_origin_def)

lemma nat_window:
  "0 \<le> x \<Longrightarrow> (nat x \<le> r) = (x \<le> int r)"
  "0 \<le> x \<Longrightarrow> (r < nat x + k) = (int r < x + int k)"
  by linarith+

lemma apply_pattern_fits:
  assumes "consistent s" "shape_ok p (length p) (ncols p)"
    "length p \<le> height s" "ncols p \<le> width s"
  shows "\<exists>g. apply_pattern s p ci cj = (None, s\<lparr>grid := g\<rparr>) \<and> shape_ok g (height s) (width s)
      \<and> (\<forall>r<height s. \<forall>c<width s. g ! r ! c =
            (if clamp_origin (ci - int (length p) div 2) (height s) (length p) \<le> int r
                \<and> int r < clamp_origin (ci - int (length p) div 2) (height s) (length p) + int (length p)
                \<and> clamp_origin (cj - int (ncols p) div 2) (width s) (ncols p) \<le> int c
                \<and> int c < clamp_origin (cj - int (ncols p) div 2) (width s) (ncols p) + int (ncols p)
             then p ! (r - nat (clamp_origin (ci - int (length p) div 2) (height s) (length p)))
                    ! (c - nat (clamp_origin (cj - int (ncols p) div 2) (width s) (ncols p)))
             else grid s ! r ! c))"
proof -
  let ?i = "clamp_origin (ci - int (length p) div 2) (height s) (length p)"
  let ?j = "clamp_origin (cj - int (ncols p) div 2) (width s) (ncols p)"
  have sh: "shape_ok (grid s) (height s) (width s)" using assms(1) by (simp add: consistent_def)
  note ri = clamp_origin_range[OF assms(3), of "ci - int (length p) div 2"]
  note rj = clamp_origin_range[OF assms(4), of "cj - int (ncols p) div 2"]
  have n: "nat (?i + int (length p)) = nat ?i + length p" "nat (?j + int (ncols p)) = nat ?j + ncols p"
    using ri rj by (simp_all add: nat_add_distrib)
  have f: "nat ?i + length p \<le> height s" "nat ?j + ncols p \<le> width s"
    using ri rj by auto
  from setslice_fits[OF sh assms(2) f] obtain g where
    g: "setslice (grid s) (nat ?i) (nat ?i + length p) (nat ?j) (nat ?j + ncols p) p = Inr g"
    "shape_ok g (height s) (width s)"
    "\<forall>r<height s. \<forall>c<width s. g ! r ! c =
            (if nat ?i \<le> r \<and> r < nat ?i + length p \<and> nat ?j \<le> c \<and> c < nat ?j + ncols p
             then p ! (r - nat ?i) ! (c - nat ?j) else grid s ! r ! c)"
    by blast
  have "draw_grid (s\<lparr>grid := g\<rparr>) = None"
    using g(2) by (intro draw_grid_ok) (simp add: consistent_def)
  then have a: "apply_pattern s p ci cj = (None, s\<lparr>grid := g\<rparr>)"
    unfolding apply_pattern_def Let_def n g(1) by simp
  have e: "(nat ?i \<le> r \<and> r < nat ?i + length p \<and> nat ?j \<le> c \<and> c < nat ?j + ncols p)
       = (?i \<le> int r \<and> int r < ?i + int (length p) \<and> ?j \<le> int c \<and> int c < ?j + int (ncols p))" for r c
    using ri rj by (simp add: nat_window)
  from a g(2) g(3) show ?thesis unfolding e by blast
qed


section \<open>The claims\<close>

text \<open>
  C1. One step computes every cell from the grid as it was before the step. On an engine
  whose grid is binary and has the announced shape, \<open>update\<close> returns normally and each
  cell of the new grid is the rule \<open>next_state_spec\<close> applied to the old cell and to the
  number of ALIVE cells among its Moore neighbours inside the old grid
  (\<open>clamp_count_spec\<close>, which is what \<open>_count_neighbors\<close> returns there): an ALIVE
  cell stays ALIVE iff that number is 2 or 3, a DEAD cell becomes ALIVE iff it is 3,
  every other cell is DEAD. The same holds of \<open>game_of_life\<close> with the number of ALIVE
  cells among the eight Moore positions of the old grid taken modulo its extent
  (\<open>wrap_count_spec\<close>). In particular both map an all-dead grid to itself.
\<close>

theorem step_applies_rule_to_old_grid:
  "(consistent s \<and> binary (grid s) \<longrightarrow>
      fst (update s) = None \<and>
      shape_ok (grid (snd (update s))) (height s) (width s) \<and>
      (\<forall>i<height s. \<forall>j<width s.
         count_neighbors s i j = Inr (clamp_count_spec (grid s) (height s) (width s) i j) \<and>
         grid (snd (update s)) ! i ! j
           = next_state_spec (grid s ! i ! j)
               (clamp_count_spec (grid s) (height s) (width s) i j)))
   \<and> (shape_ok a n m \<and> binary a \<longrightarrow>
      (\<exists>g. game_of_life n m a = Inr g \<and> shape_ok g n m \<and>
         (\<forall>i<n. \<forall>j<m.
            neighbors n m a i j = Inr (wrap_count_spec a n m i j) \<and>
            g ! i ! j = next_state_spec (a ! i ! j) (wrap_count_spec a n m i j))))
   \<and> (consistent s \<and> all_dead (grid s) \<longrightarrow>
        fst (update s) = None \<and> grid (snd (update s)) = grid s)
   \<and> (shape_ok a n m \<and> all_dead a \<longrightarrow> game_of_life n m a = Inr a)"
proof (intro conjI impI)
  assume h: "consistent s \<and> binary (grid s)"
  then show "fst (update s) = None" "shape_ok (grid (snd (update s))) (height s) (width s)"
    using update_rule[of s] by simp_all
  show "\<forall>i<height s. \<forall>j<width s.
         count_neighbors s i j = Inr (clamp_count_spec (grid s) (height s) (width s) i j) \<and>
         grid (snd (update s)) ! i ! j
           = next_state_spec (grid s ! i ! j)
               (clamp_count_spec (grid s) (height s) (width s) i j)"
    using h update_rule[of s] by (simp add: count_neighbors_clamp)
next
  assume h: "shape_ok a n m \<and> binary a"
  then show "\<exists>g. game_of_life n m a = Inr g \<and> shape_ok g n m \<and>
         (\<forall>i<n. \<forall>j<m.
            neighbors n m a i j = Inr (wrap_count_spec a n m i j) \<and>
            g ! i ! j = next_state_spec (a ! i ! j) (wrap_count_spec a n m i j))"
    using game_of_life_rule[of a n m] by (auto simp: neighbors_wrap)
next
  assume h: "consistent s \<and> all_dead (grid s)"
  then show "fst (update s) = None"
    using update_rule[of s] all_dead_binary by simp
  show "grid (snd (update s)) = grid s" using h update_all_dead by simp
next
  assume "shape_ok a n m \<and> all_dead a"
  then show "game_of_life n m a = Inr a" using game_of_life_all_dead by simp
qed

theorem step_applies_rule_to_old_grid_witness:
  "consistent ((GameOfLife_init 3 3)\<lparr>grid := [[0, 1, 0], [0, 1, 0], [0, 1, 0]]\<rparr>)
   \<and> binary [[0, 1, 0], [0, 1, 0], [0, 1, 0]]
   \<and> update ((GameOfLife_init 3 3)\<lparr>grid := [[0, 1, 0], [0, 1, 0], [0, 1, 0]]\<rparr>)
       = (None, (GameOfLife_init 3 3)\<lparr>grid := [[0, 0, 0], [1, 1, 1], [0, 0, 0]],
            generation := 1, history := [[[0, 1, 0], [0, 1, 0], [0, 1, 0]]]\<rparr>)
   \<and> clamp_count_spec [[0, 1, 0], [0, 1, 0], [0, 1, 0]] 3 3 1 0 = 3
   \<and> count_neighbors ((GameOfLife_init 3 3)\<lparr>grid := [[0, 1, 0], [0, 1, 0], [0, 1, 0]]\<rparr>) 1 0
       = Inr 3
   \<and> grid (snd (update ((GameOfLife_init 3 3)\<lparr>grid := [[0, 1, 0], [0, 1, 0], [0, 1, 0]]\<rparr>)))
        ! 1 ! 0 = next_state_spec 0 3
   \<and> clamp_count_spec [[0, 1, 0], [0, 1, 0], [0, 1, 0]] 3 3 0 1 = 1
   \<and> grid (snd (update ((GameOfLife_init 3 3)\<lparr>grid := [[0, 1, 0], [0, 1, 0], [0, 1, 0]]\<rparr>)))
        ! 0 ! 1 = next_state_spec 1 1
   \<and> shape_ok [[0, 1, 0], [0, 1, 0], [0, 1, 0]] 3 3
   \<and> game_of_life 3 3 [[0, 1, 0], [0, 1, 0], [0, 1, 0]] = Inr [[1, 1, 1], [1, 1, 1], [1, 1, 1]]
   \<and> wrap_count_spec [[0, 1, 0], [0, 1, 0], [0, 1, 0]] 3 3 0 1 = 2
   \<and> neighbors 3 3 [[0, 1, 0], [0, 1, 0], [0, 1, 0]] 0 1 = Inr 2
   \<and> consistent (GameOfLife_init 2 2) \<and> all_dead (grid (GameOfLife_init 2 2))
   \<and> grid (snd (update (GameOfLife_init 2 2))) = grid (GameOfLife_init 2 2)
   \<and> shape_ok [[0, 0], [0, 0]] 2 2 \<and> all_dead [[0, 0], [0, 0]]
   \<and> game_of_life 2 2 [[0, 0], [0, 0]] = Inr [[0, 0], [0, 0]]"
proof -
  let ?b = "[[0, 1, 0], [0, 1, 0], [0, 1, 0]] :: ndarray"
  let ?s = "(GameOfLife_init 3 3)\<lparr>grid := ?b\<rparr>"
  have c: "consistent ?s" "binary ?b" "shape_ok ?b 3 3"
    "consistent (GameOfLife_init 2 2)" "all_dead (grid (GameOfLife_init 2 2))"
    "shape_ok [[0, 0], [0, 0]] 2 2" "all_dead [[0, 0], [0, 0]]"
    by (simp_all add: consistent_def shape_ok_def binary_def all_dead_def GameOfLife_init_def)
  have f: "grid ?s = ?b" "height ?s = 3" "width ?s = 3" "?b ! 1 ! 0 = 0" "?b ! 0 ! 1 = 1"
    by (simp_all add: GameOfLife_init_def)
  have e1: "update ?s
       = (None, (GameOfLife_init 3 3)\<lparr>grid := [[0, 0, 0], [1, 1, 1], [0, 0, 0]],
            generation := 1, history := [?b]\<rparr>)"
    by code_simp
  have e2: "game_of_life 3 3 ?b = Inr [[1, 1, 1], [1, 1, 1], [1, 1, 1]]"
    by code_simp
  have k: "clamp_count_spec ?b 3 3 1 0 = 3" "clamp_count_spec ?b 3 3 0 1 = 1"
    "wrap_count_spec ?b 3 3 0 1 = 2"
    by code_simp+
  note h = step_applies_rule_to_old_grid[of ?s ?b 3 3]
  from h c f have u: "\<forall>i<3. \<forall>j<3.
         count_neighbors ?s i j = Inr (clamp_count_spec ?b 3 3 i j) \<and>
         grid (snd (update ?s)) ! i ! j = next_state_spec (?b ! i ! j) (clamp_count_spec ?b 3 3 i j)"
    by simp
  from u have u1: "count_neighbors ?s 1 0 = Inr (clamp_count_spec ?b 3 3 1 0)"
    "grid (snd (update ?s)) ! 1 ! 0 = next_state_spec (?b ! 1 ! 0) (clamp_count_spec ?b 3 3 1 0)"
    "grid (snd (update ?s)) ! 0 ! 1 = next_state_spec (?b ! 0 ! 1) (clamp_count_spec ?b 3 3 0 1)"
    by simp_all
  from h c obtain g where g: "game_of_life 3 3 ?b = Inr g"
    "\<forall>i<3. \<forall>j<3. neighbors 3 3 ?b i j = Inr (wrap_count_spec ?b 3 3 i j) \<and>
       g ! i ! j = next_state_spec (?b ! i ! j) (wrap_count_spec ?b 3 3 i j)"
    by blast
  from g(2) have w1: "neighbors 3 3 ?b 0 1 = Inr (wrap_count_spec ?b 3 3 0 1)" by simp
  from step_applies_rule_to_old_grid[of "GameOfLife_init 2 2" "[[0, 0], [0, 0]]" 2 2] c
  have d: "grid (snd (update (GameOfLife_init 2 2))) = grid (GameOfLife_init 2 2)"
    "game_of_life 2 2 [[0, 0], [0, 0]] = Inr [[0, 0], [0, 0]]"
    by simp_all
  show ?thesis
    using c e1 e2 d u1[unfolded f k] w1[unfolded k] k by simp
qed

text \<open>
  C2. \<open>undo\<close> right after \<open>update\<close> returns True, puts back the grid the step started
  from and takes exactly 1 off the generation counter; on a consistent engine the step
  itself returns normally and has added 1, so the counter is back at its value before
  the step. With an empty history (as in a freshly constructed engine, whose counter
  is 0) \<open>undo\<close> returns False and changes nothing.
\<close>

theorem undo_after_step_restores:
  "undo (snd (update s))
     = (True, (snd (update s))\<lparr>grid := grid s, history := butlast (history (snd (update s))),
                 generation := generation (snd (update s)) - 1\<rparr>)
   \<and> (consistent s \<longrightarrow>
         fst (update s) = None
         \<and> grid (snd (undo (snd (update s)))) = grid s
         \<and> generation (snd (undo (snd (update s)))) = generation s)
   \<and> (history s = [] \<longrightarrow> undo s = (False, s))
   \<and> undo (GameOfLife_init w h) = (False, GameOfLife_init w h)
   \<and> generation (GameOfLife_init w h) = 0"
proof (intro conjI impI)
  show "undo (snd (update s))
     = (True, (snd (update s))\<lparr>grid := grid s, history := butlast (history (snd (update s))),
                 generation := generation (snd (update s)) - 1\<rparr>)"
    by (rule undo_after_update)
next
  assume c: "consistent s"
  from update_ok[OF c] show n: "fst (update s) = None" by auto
  show "grid (snd (undo (snd (update s)))) = grid s"
    by (simp add: undo_after_update)
  show "generation (snd (undo (snd (update s)))) = generation s"
    using n by (simp add: undo_after_update update_generation)
next
  assume "history s = []"
  then show "undo s = (False, s)" by (rule undo_empty)
next
  show "undo (GameOfLife_init w h) = (False, GameOfLife_init w h)"
    by (simp add: undo_empty GameOfLife_init_def)
  show "generation (GameOfLife_init w h) = 0" by (simp add: GameOfLife_init_def)
qed

theorem undo_after_step_restores_witness:
  "consistent ((GameOfLife_init 3 3)\<lparr>grid := [[0, 1, 0], [0, 1, 0], [0, 1, 0]]\<rparr>)
   \<and> grid (snd (update ((GameOfLife_init 3 3)\<lparr>grid := [[0, 1, 0], [0, 1, 0], [0, 1, 0]]\<rparr>)))
       = [[0, 0, 0], [1, 1, 1], [0, 0, 0]]
   \<and> grid (snd (undo (snd (update ((GameOfLife_init 3 3)\<lparr>grid := [[0, 1, 0], [0, 1, 0], [0, 1, 0]]\<rparr>)))))
       = [[0, 1, 0], [0, 1, 0], [0, 1, 0]]
   \<and> generation (snd (undo (snd (update ((GameOfLife_init 3 3)\<lparr>grid := [[0, 1, 0], [0, 1, 0], [0, 1, 0]]\<rparr>))))) = 0
   \<and> history (GameOfLife_init 3 3) = []
   \<and> undo (GameOfLife_init 3 3) = (False, GameOfLife_init 3 3)"
proof -
  let ?s = "(GameOfLife_init 3 3)\<lparr>grid := [[0, 1, 0], [0, 1, 0], [0, 1, 0]]\<rparr>"
  have c: "consistent ?s" "history (GameOfLife_init 3 3) = []" "generation ?s = 0"
    "grid ?s = [[0, 1, 0], [0, 1, 0], [0, 1, 0]]"
    by (simp_all add: consistent_def shape_ok_def GameOfLife_init_def)
  have e: "grid (snd (update ?s)) = [[0, 0, 0], [1, 1, 1], [0, 0, 0]]"
    by code_simp
  note h = undo_after_step_restores[of ?s 3 3]
  from h c(1) have r: "grid (snd (undo (snd (update ?s)))) = grid ?s"
    "generation (snd (undo (snd (update ?s)))) = generation ?s"
    by blast+
  from h have i: "undo (GameOfLife_init 3 3) = (False, GameOfLife_init 3 3)" by blast
  show ?thesis
    unfolding r i using c e by simp
qed

text \<open>
  C3. The history never holds more than 50 snapshots, whatever calls are made on an
  engine. \<open>update\<close> appends the current grid and, when 50 were stored, drops the oldest
  one; \<open>undo\<close> takes the most recently pushed one. After 51 or more consecutive steps
  (from a state with at most 50 snapshots), 50 calls of \<open>undo\<close> return True and leave
  the history empty, and the 51st returns False.
\<close>

theorem history_bounded_fifo_lifo:
  "length (history (run ops (GameOfLife_init w h))) \<le> 50
   \<and> (length (history s) < 50 \<longrightarrow> history (snd (update s)) = history s @ [grid s])
   \<and> (length (history s) = 50 \<longrightarrow> history (snd (update s)) = tl (history s) @ [grid s])
   \<and> (length (history s) \<le> 50 \<longrightarrow> length (history (snd (update s))) \<le> 50)
   \<and> (history s \<noteq> [] \<longrightarrow>
         undo s = (True, s\<lparr>grid := last (history s), history := butlast (history s),
                            generation := generation s - 1\<rparr>))
   \<and> (51 \<le> n \<and> length (history s) \<le> 50 \<longrightarrow>
         length (history (steps n s)) = 50
         \<and> fst (undos 50 (steps n s)) = replicate 50 True
         \<and> history (snd (undos 50 (steps n s))) = []
         \<and> fst (undos 51 (steps n s)) = replicate 50 True @ [False])"
proof (intro conjI impI)
  show "length (history (run ops (GameOfLife_init w h))) \<le> 50"
    using reachable_inv[of ops w h] by (simp add: engine_inv_def)
next
  assume "length (history s) < 50"
  then show "history (snd (update s)) = history s @ [grid s]"
    by (simp add: update_fields pushed_history_def)
next
  assume "length (history s) = 50"
  then show "history (snd (update s)) = tl (history s) @ [grid s]"
    by (simp add: update_fields pushed_history_def)
next
  assume "length (history s) \<le> 50"
  then show "length (history (snd (update s))) \<le> 50"
    by (simp add: update_fields pushed_history_length)
next
  assume "history s \<noteq> []"
  then show "undo s = (True, s\<lparr>grid := last (history s), history := butlast (history s),
                            generation := generation s - 1\<rparr>)"
    by (rule undo_nonempty)
next
  assume a: "51 \<le> n \<and> length (history s) \<le> 50"
  then show l: "length (history (steps n s)) = 50"
    by (simp add: steps_history_length)
  show "fst (undos 50 (steps n s)) = replicate 50 True"
    using undos_results[of 50 "steps n s"] l by simp
  show "history (snd (undos 50 (steps n s))) = []"
    using undos_results[of 50 "steps n s"] l by simp
  show "fst (undos 51 (steps n s)) = replicate 50 True @ [False]"
    using undos_results[of 51 "steps n s"] l by simp
qed

theorem history_bounded_fifo_lifo_witness:
  "length (history (GameOfLife_init 1 1)) < 50
   \<and> history (snd (update (GameOfLife_init 1 1))) = [[[0]]]
   \<and> length (history ((GameOfLife_init 1 1)\<lparr>history := replicate 50 [[1]]\<rparr>)) = 50
   \<and> history (snd (update ((GameOfLife_init 1 1)\<lparr>history := replicate 50 [[1]]\<rparr>)))
        = replicate 49 [[1]] @ [[[0]]]
   \<and> history (snd (update (GameOfLife_init 1 1))) \<noteq> []
   \<and> undo (snd (update (GameOfLife_init 1 1))) = (True, GameOfLife_init 1 1)
   \<and> (51::nat) \<le> 51
   \<and> length (history (steps 51 (GameOfLife_init 1 1))) = 50
   \<and> fst (undos 51 (steps 51 (GameOfLife_init 1 1))) = replicate 50 True @ [False]
   \<and> history (snd (undos 50 (steps 51 (GameOfLife_init 1 1)))) = []"
proof -
  let ?s = "GameOfLife_init 1 1"
  let ?f = "(GameOfLife_init 1 1)\<lparr>history := replicate 50 [[1]]\<rparr>"
  have c: "length (history ?s) < 50" "length (history ?f) = 50" "length (history ?s) \<le> 50"
    by (simp_all add: GameOfLife_init_def)
  have u: "update ?s = (None, ?s\<lparr>grid := [[0]], generation := 1, history := [[[0]]]\<rparr>)"
    by code_simp
  have g: "grid ?s = [[0]]" "history ?s = []" "grid ?f = [[0]]" "history ?f = replicate 50 [[1]]"
    "generation ?s = 0"
    by (simp_all add: GameOfLife_init_def)
  have t: "tl (replicate 50 [[1::int]]) = replicate 49 [[1]]"
    by (simp add: tl_replicate)
  note h = history_bounded_fifo_lifo
  from h[of "[]" 1 1 ?s 51] c g have 1: "history (snd (update ?s)) = [[[0]]]" by simp
  from h[of "[]" 1 1 ?f 51] c g t have 2: "history (snd (update ?f)) = replicate 49 [[1]] @ [[[0]]]"
    by simp
  have ne: "history (snd (update ?s)) \<noteq> []" using 1 by simp
  from h[of "[]" 1 1 "snd (update ?s)" 51] ne
  have "undo (snd (update ?s))
      = (True, (snd (update ?s))\<lparr>grid := last (history (snd (update ?s))),
           history := butlast (history (snd (update ?s))),
           generation := generation (snd (update ?s)) - 1\<rparr>)"
    by blast
  then have 3: "undo (snd (update ?s)) = (True, ?s)"
    unfolding u by (simp add: GameOfLife_init_def)
  from h[of "[]" 1 1 ?s 51] c have 4: "length (history (steps 51 ?s)) = 50"
    "fst (undos 51 (steps 51 ?s)) = replicate 50 True @ [False]"
    "history (snd (undos 50 (steps 51 ?s))) = []"
    by simp_all
  from c 1 2 3 4 ne show ?thesis by simp
qed

text \<open>
  C4, as the code has it. \<open>toggle_cell\<close> with an index outside the grid is ignored: the
  call returns normally, raises nothing, and the engine is unchanged. With indices inside
  the grid of a consistent engine it writes the negation of the cell (1 for a zero cell,
  0 for any other) and leaves every other cell as it was; on a cell holding 0 or 1 a
  second call restores the engine exactly.
\<close>

theorem toggle_cell_flips_in_range_ignores_outside:
  "(\<not> (0 \<le> i \<and> i < int (height s) \<and> 0 \<le> j \<and> j < int (width s)) \<longrightarrow>
        toggle_cell s i j = (None, s))
   \<and> (consistent s \<and> r < height s \<and> c < width s \<longrightarrow>
        fst (toggle_cell s (int r) (int c)) = None
        \<and> shape_ok (grid (snd (toggle_cell s (int r) (int c)))) (height s) (width s)
        \<and> grid (snd (toggle_cell s (int r) (int c))) ! r ! c = (if grid s ! r ! c \<noteq> 0 then 0 else 1)
        \<and> (\<forall>r'<height s. \<forall>c'<width s. (r', c') \<noteq> (r, c) \<longrightarrow>
              grid (snd (toggle_cell s (int r) (int c))) ! r' ! c' = grid s ! r' ! c')
        \<and> (snd (toggle_cell s (int r) (int c)))\<lparr>grid := grid s\<rparr> = s
        \<and> (grid s ! r ! c = 0 \<or> grid s ! r ! c = 1 \<longrightarrow>
              toggle_cell (snd (toggle_cell s (int r) (int c))) (int r) (int c) = (None, s)))"
proof (intro conjI impI)
  assume "\<not> (0 \<le> i \<and> i < int (height s) \<and> 0 \<le> j \<and> j < int (width s))"
  then show "toggle_cell s i j = (None, s)" by (rule toggle_cell_out_of_range)
next
  assume a: "consistent s \<and> r < height s \<and> c < width s"
  then have sh: "shape_ok (grid s) (height s) (width s)" by (simp add: consistent_def)
  note t = toggle_cell_in_range[of s r c]
  show "fst (toggle_cell s (int r) (int c)) = None" using a t by simp
  show "shape_ok (grid (snd (toggle_cell s (int r) (int c)))) (height s) (width s)"
    using a t shape_ok_with_cell[OF sh] by simp
  show "grid (snd (toggle_cell s (int r) (int c))) ! r ! c = (if grid s ! r ! c \<noteq> 0 then 0 else 1)"
    using a t with_cell_nth[OF sh, of r c r c] by simp
  show "\<forall>r'<height s. \<forall>c'<width s. (r', c') \<noteq> (r, c) \<longrightarrow>
              grid (snd (toggle_cell s (int r) (int c))) ! r' ! c' = grid s ! r' ! c'"
    using a t by (auto simp: with_cell_nth[OF sh])
  show "(snd (toggle_cell s (int r) (int c)))\<lparr>grid := grid s\<rparr> = s"
    using a t by simp
next
  assume "consistent s \<and> r < height s \<and> c < width s" "grid s ! r ! c = 0 \<or> grid s ! r ! c = 1"
  then show "toggle_cell (snd (toggle_cell s (int r) (int c))) (int r) (int c) = (None, s)"
    using toggle_cell_twice by blast
qed

theorem toggle_cell_flips_in_range_ignores_outside_witness:
  "\<not> (0 \<le> (5::int) \<and> (5::int) < int (height (GameOfLife_init 2 2))
        \<and> 0 \<le> (-1::int) \<and> (-1::int) < int (width (GameOfLife_init 2 2)))
   \<and> toggle_cell (GameOfLife_init 2 2) 5 (-1) = (None, GameOfLife_init 2 2)
   \<and> consistent (GameOfLife_init 2 2)
   \<and> (0::nat) < height (GameOfLife_init 2 2) \<and> (1::nat) < width (GameOfLife_init 2 2)
   \<and> grid (GameOfLife_init 2 2) ! 0 ! 1 = 0
   \<and> grid (snd (toggle_cell (GameOfLife_init 2 2) (int 0) (int 1))) = [[0, 1], [0, 0]]
   \<and> toggle_cell (snd (toggle_cell (GameOfLife_init 2 2) (int 0) (int 1))) (int 0) (int 1)
       = (None, GameOfLife_init 2 2)"
proof -
  let ?s = "GameOfLife_init 2 2"
  have c: "\<not> (0 \<le> (5::int) \<and> (5::int) < int (height ?s) \<and> 0 \<le> (-1::int) \<and> (-1::int) < int (width ?s))"
    "consistent ?s" "(0::nat) < height ?s" "(1::nat) < width ?s" "grid ?s ! 0 ! 1 = 0"
    by (simp_all add: GameOfLife_init_def consistent_def shape_ok_def numeral_2_eq_2)
  have e: "grid (snd (toggle_cell ?s (int 0) (int 1))) = [[0, 1], [0, 0]]"
    by code_simp
  note h = toggle_cell_flips_in_range_ignores_outside[of 5 ?s "-1" 0 1]
  from h c(1) have 1: "toggle_cell ?s 5 (-1) = (None, ?s)" by blast
  from h c have 2: "toggle_cell (snd (toggle_cell ?s (int 0) (int 1))) (int 0) (int 1) = (None, ?s)"
    by blast
  from c e 1 2 show ?thesis by blast
qed

text \<open>
  Against C4 as stated: on the 1 by 1 engine \<open>toggle_cell(5, 5)\<close> returns normally, no
  error reaches the caller.
\<close>

theorem toggle_cell_out_of_range_raises_nothing:
  "toggle_cell (GameOfLife_init 1 1) 5 5 = (None, GameOfLife_init 1 1)"
  by (simp add: toggle_cell_def GameOfLife_init_def)

text \<open>
  C9. The generation counter starts at 0; a call of \<open>update\<close> that returns normally
  adds exactly 1, a call of \<open>undo\<close> that returns True subtracts exactly 1, and
  \<open>toggle_cell\<close>, \<open>clear\<close>, \<open>randomize\<close> and an \<open>undo\<close> that returns False leave it
  alone. In every state reached from a fresh engine by these calls \<open>update\<close> returns
  normally, the counter is at least the number of stored snapshots, hence never
  negative, also after one more \<open>undo\<close>.
\<close>

theorem generation_counter_nonnegative:
  "generation (GameOfLife_init w h) = 0
   \<and> (fst (update s) = None \<longrightarrow> generation (snd (update s)) = generation s + 1)
   \<and> (fst (undo s) \<longrightarrow> generation (snd (undo s)) = generation s - 1)
   \<and> (\<not> fst (undo s) \<longrightarrow> generation (snd (undo s)) = generation s)
   \<and> generation (snd (toggle_cell s i j)) = generation s
   \<and> generation (clear s) = generation s
   \<and> generation (randomize s draw) = generation s
   \<and> fst (update (run ops (GameOfLife_init w h))) = None
   \<and> int (length (history (run ops (GameOfLife_init w h)))) \<le> generation (run ops (GameOfLife_init w h))
   \<and> 0 \<le> generation (run ops (GameOfLife_init w h))
   \<and> 0 \<le> generation (snd (undo (run ops (GameOfLife_init w h))))"
proof (intro conjI impI)
  show "generation (GameOfLife_init w h) = 0" by (simp add: GameOfLife_init_def)
  show "generation (snd (toggle_cell s i j)) = generation s" by (rule toggle_cell_generation)
  show "generation (clear s) = generation s" by (simp add: clear_def)
  show "generation (randomize s draw) = generation s" by (simp add: randomize_def)
  let ?s = "run ops (GameOfLife_init w h)"
  have inv: "engine_inv ?s" by (rule reachable_inv)
  show "fst (update ?s) = None" using inv by (rule update_inv)
  show l: "int (length (history ?s)) \<le> generation ?s" using inv by (simp add: engine_inv_def)
  then show "0 \<le> generation ?s" by linarith
  have "engine_inv (snd (undo ?s))" using inv by (rule undo_inv)
  then have "int (length (history (snd (undo ?s)))) \<le> generation (snd (undo ?s))"
    by (simp add: engine_inv_def)
  then show "0 \<le> generation (snd (undo ?s))" by linarith
next
  assume "fst (update s) = None"
  then show "generation (snd (update s)) = generation s + 1" by (simp add: update_generation)
next
  assume "fst (undo s)"
  then show "generation (snd (undo s)) = generation s - 1" by (simp add: undo_generation)
next
  assume "\<not> fst (undo s)"
  then show "generation (snd (undo s)) = generation s" by (simp add: undo_generation)
qed

theorem generation_counter_nonnegative_witness:
  "fst (update (GameOfLife_init 2 2)) = None
   \<and> generation (snd (update (GameOfLife_init 2 2))) = 1
   \<and> fst (undo (snd (update (GameOfLife_init 2 2))))
   \<and> generation (snd (undo (snd (update (GameOfLife_init 2 2))))) = 0
   \<and> \<not> fst (undo (GameOfLife_init 2 2))
   \<and> generation (snd (undo (GameOfLife_init 2 2))) = 0
   \<and> generation (run [Step, Toggle 0 0, Step, Undo, Clear, Step] (GameOfLife_init 2 2)) = 2
   \<and> length (history (run [Step, Toggle 0 0, Step, Undo, Clear, Step] (GameOfLife_init 2 2))) = 2"
proof -
  let ?s = "GameOfLife_init 2 2"
  have u: "fst (update ?s) = None" "fst (undo (snd (update ?s)))" "\<not> fst (undo ?s)"
    by code_simp+
  have g: "generation ?s = 0" by (simp add: GameOfLife_init_def)
  have r: "generation (run [Step, Toggle 0 0, Step, Undo, Clear, Step] ?s) = 2"
    "length (history (run [Step, Toggle 0 0, Step, Undo, Clear, Step] ?s)) = 2"
    by code_simp+
  note h = generation_counter_nonnegative
  from h[of 2 2 ?s] u(1) g have 1: "generation (snd (update ?s)) = 1" by simp
  from h[of 2 2 "snd (update ?s)"] u(2) 1
  have 2: "generation (snd (undo (snd (update ?s)))) = 0" by simp
  from h[of 2 2 ?s] u(3) g have 3: "generation (snd (undo ?s)) = 0" by simp
  from u r 1 2 3 show ?thesis by simp
qed

text \<open>
  C10. The grid of a fresh engine is all zero, and in every state reached from it by
  calls of \<open>update\<close>, \<open>toggle_cell\<close>, \<open>clear\<close>, \<open>randomize\<close> and \<open>undo\<close> every cell holds
  0 or 1: each of the five calls, made in such a state, gives such a state again.
\<close>

theorem cells_always_binary:
  "all_dead (grid (GameOfLife_init w h))
   \<and> (\<forall>row \<in> set (grid (run ops (GameOfLife_init w h))). \<forall>v \<in> set row. v = 0 \<or> v = 1)
   \<and> binary (grid (snd (update (run ops (GameOfLife_init w h)))))
   \<and> binary (grid (snd (toggle_cell (run ops (GameOfLife_init w h)) i j)))
   \<and> binary (grid (clear (run ops (GameOfLife_init w h))))
   \<and> binary (grid (randomize (run ops (GameOfLife_init w h)) draw))
   \<and> binary (grid (snd (undo (run ops (GameOfLife_init w h)))))"
proof -
  let ?s = "run ops (GameOfLife_init w h)"
  have b: "binary (grid (run xs (GameOfLife_init w h)))" for xs
    using reachable_inv[of xs w h] by (simp add: engine_inv_def)
  have "exec x ?s = run (ops @ [x]) (GameOfLife_init w h)" for x
    by (simp add: run_append)
  then have e: "binary (grid (exec x ?s))" for x using b by simp
  have "all_dead (grid (GameOfLife_init w h))"
    by (simp add: all_dead_def GameOfLife_init_def)
  moreover have "\<forall>row \<in> set (grid ?s). \<forall>v \<in> set row. v = 0 \<or> v = 1"
    using b[of ops] by (simp add: binary_def)
  ultimately show ?thesis
    using e[of Step] e[of "Toggle i j"] e[of Clear] e[of "Randomize draw"] e[of Undo]
    by simp
qed

theorem cells_always_binary_witness:
  "grid (run [Randomize (\<lambda>i j. i = j), Toggle 0 1, Step] (GameOfLife_init 2 2)) = [[1, 1], [1, 1]]
   \<and> [1, 1] \<in> set (grid (run [Randomize (\<lambda>i j. i = j), Toggle 0 1, Step] (GameOfLife_init 2 2)))
   \<and> (1::int) \<in> set [1, 1]
   \<and> binary [[1, 1], [1, 1]]
   \<and> all_dead (grid (GameOfLife_init 2 2))"
proof -
  let ?ops = "[Randomize (\<lambda>i j. i = j), Toggle 0 1, Step]"
  have e: "grid (run ?ops (GameOfLife_init 2 2)) = [[1, 1], [1, 1]]"
    by code_simp
  note h = cells_always_binary[of 2 2 ?ops 0 0 "\<lambda>i j. True"]
  from h have "\<forall>row \<in> set (grid (run ?ops (GameOfLife_init 2 2))). \<forall>v \<in> set row. v = 0 \<or> v = 1"
    by blast
  then have b: "binary [[1, 1], [1, 1]]" unfolding e binary_def .
  from h have a: "all_dead (grid (GameOfLife_init 2 2))" by blast
  from e b a show ?thesis by simp
qed

text \<open>
  C5, as the code has it. On a binary grid and a cell inside it, both counts are the
  number of ALIVE cells the specification names: \<open>_count_neighbors\<close> counts the Moore
  positions that lie inside the grid (clamp), the count of \<open>game_of_life\<close> counts the
  eight Moore positions taken modulo the numbers of rows and columns (wrap). Both lie
  between 0 and 8. The clamp count never includes the cell itself: it is the same
  whatever value the cell holds. The wrap count does not include it when the grid has at
  least two rows and two columns; with a single row or column a wrapped position is the
  cell itself.
\<close>

theorem neighbor_count_is_moore_count:
  "(consistent s \<and> binary (grid s) \<and> i < height s \<and> j < width s \<longrightarrow>
       count_neighbors s i j = Inr (clamp_count_spec (grid s) (height s) (width s) i j)
       \<and> 0 \<le> clamp_count_spec (grid s) (height s) (width s) i j
       \<and> clamp_count_spec (grid s) (height s) (width s) i j \<le> 8
       \<and> count_neighbors (s\<lparr>grid := with_cell (grid s) i j v\<rparr>) i j = count_neighbors s i j)
   \<and> (shape_ok a n m \<and> binary a \<and> i < n \<and> j < m \<longrightarrow>
       neighbors n m a i j = Inr (wrap_count_spec a n m i j)
       \<and> 0 \<le> wrap_count_spec a n m i j
       \<and> wrap_count_spec a n m i j \<le> 8
       \<and> (2 \<le> n \<and> 2 \<le> m \<longrightarrow>
             neighbors n m (with_cell a i j v) i j = neighbors n m a i j))"
proof (intro conjI impI)
  assume a: "consistent s \<and> binary (grid s) \<and> i < height s \<and> j < width s"
  then show "count_neighbors s i j = Inr (clamp_count_spec (grid s) (height s) (width s) i j)"
    by (simp add: count_neighbors_clamp)
  show "0 \<le> clamp_count_spec (grid s) (height s) (width s) i j"
    "clamp_count_spec (grid s) (height s) (width s) i j \<le> 8"
    using clamp_count_spec_range by simp_all
  show "count_neighbors (s\<lparr>grid := with_cell (grid s) i j v\<rparr>) i j = count_neighbors s i j"
    using a by (simp add: count_neighbors_excludes_self)
next
  assume a: "shape_ok a n m \<and> binary a \<and> i < n \<and> j < m"
  then show "neighbors n m a i j = Inr (wrap_count_spec a n m i j)"
    by (simp add: neighbors_wrap)
  show "0 \<le> wrap_count_spec a n m i j" "wrap_count_spec a n m i j \<le> 8"
    using wrap_count_spec_range by simp_all
  assume "2 \<le> n \<and> 2 \<le> m"
  with a show "neighbors n m (with_cell a i j v) i j = neighbors n m a i j"
    by (simp add: neighbors_excludes_self)
qed

theorem neighbor_count_is_moore_count_witness:
  "consistent ((GameOfLife_init 3 3)\<lparr>grid := [[1, 1, 0], [0, 1, 0], [0, 1, 0]]\<rparr>)
   \<and> binary [[1, 1, 0], [0, 1, 0], [0, 1, 0]]
   \<and> shape_ok [[1, 1, 0], [0, 1, 0], [0, 1, 0]] 3 3
   \<and> (0::nat) < 3 \<and> (2::nat) \<le> 3
   \<and> count_neighbors ((GameOfLife_init 3 3)\<lparr>grid := [[1, 1, 0], [0, 1, 0], [0, 1, 0]]\<rparr>) 0 0 = Inr 2
   \<and> clamp_count_spec [[1, 1, 0], [0, 1, 0], [0, 1, 0]] 3 3 0 0 = 2
   \<and> count_neighbors ((GameOfLife_init 3 3)\<lparr>grid := [[0, 1, 0], [0, 1, 0], [0, 1, 0]]\<rparr>) 0 0 = Inr 2
   \<and> neighbors 3 3 [[1, 1, 0], [0, 1, 0], [0, 1, 0]] 0 0 = Inr 3
   \<and> wrap_count_spec [[1, 1, 0], [0, 1, 0], [0, 1, 0]] 3 3 0 0 = 3
   \<and> neighbors 3 3 [[0, 1, 0], [0, 1, 0], [0, 1, 0]] 0 0 = Inr 3"
proof -
  let ?g = "[[1, 1, 0], [0, 1, 0], [0, 1, 0]] :: ndarray"
  let ?s = "(GameOfLife_init 3 3)\<lparr>grid := ?g\<rparr>"
  have c: "consistent ?s" "binary ?g" "shape_ok ?g 3 3" "grid ?s = ?g" "height ?s = 3" "width ?s = 3"
    by (simp_all add: consistent_def shape_ok_def binary_def GameOfLife_init_def)
  have w: "with_cell ?g 0 0 0 = [[0, 1, 0], [0, 1, 0], [0, 1, 0]]"
    by (simp add: with_cell_def)
  have e: "clamp_count_spec ?g 3 3 0 0 = 2" "wrap_count_spec ?g 3 3 0 0 = 3"
    by code_simp+
  note h = neighbor_count_is_moore_count[of ?s 0 0 0 ?g 3 3]
  from h c have 1: "count_neighbors ?s 0 0 = Inr (clamp_count_spec ?g 3 3 0 0)"
    "count_neighbors (?s\<lparr>grid := with_cell ?g 0 0 0\<rparr>) 0 0 = count_neighbors ?s 0 0"
    by simp_all
  from h c have 2: "neighbors 3 3 ?g 0 0 = Inr (wrap_count_spec ?g 3 3 0 0)"
    "neighbors 3 3 (with_cell ?g 0 0 0) 0 0 = neighbors 3 3 ?g 0 0"
    by simp_all
  from 1 2 c e w show ?thesis by simp
qed

text \<open>
  Against C5 as stated: on the 1 by 1 grid all eight wrapped positions are the cell
  itself, so the count of an ALIVE cell is 8, and it is 0 once the cell is DEAD.
\<close>

theorem wrap_count_includes_cell_on_single_cell_grid:
  "neighbors 1 1 [[1]] 0 0 = Inr 8 \<and> neighbors 1 1 (with_cell [[1]] 0 0 0) 0 0 = Inr 0"
  by code_simp

text \<open>
  C6, as the code has it. For a rectangular binary pattern that is no larger than the
  grid of a consistent engine, \<open>apply_pattern\<close> clamps the target row into
  \<open>[0, height - pattern.height]\<close> and the target column into
  \<open>[0, width - pattern.width]\<close>, raises nothing, and copies the pattern over the
  cells of that rectangle, which lies inside the grid: those cells hold the pattern's
  values afterwards (overwritten, not OR'd), every other cell is unchanged. For a
  pattern larger than the grid the clamped origin is 0.
\<close>

theorem apply_pattern_clamps_and_overwrites:
  "(consistent s \<and> shape_ok p (length p) (ncols p) \<and> binary p
      \<and> length p \<le> height s \<and> ncols p \<le> width s \<longrightarrow>
      (let i0 = clamp_origin (ci - int (length p) div 2) (height s) (length p);
           j0 = clamp_origin (cj - int (ncols p) div 2) (width s) (ncols p)
       in 0 \<le> i0 \<and> i0 + int (length p) \<le> int (height s)
          \<and> 0 \<le> j0 \<and> j0 + int (ncols p) \<le> int (width s)
          \<and> fst (apply_pattern s p ci cj) = None
          \<and> shape_ok (grid (snd (apply_pattern s p ci cj))) (height s) (width s)
          \<and> (\<forall>r<height s. \<forall>c<width s.
                grid (snd (apply_pattern s p ci cj)) ! r ! c =
                  (if i0 \<le> int r \<and> int r < i0 + int (length p)
                      \<and> j0 \<le> int c \<and> int c < j0 + int (ncols p)
                   then p ! (r - nat i0) ! (c - nat j0)
                   else grid s ! r ! c))))
   \<and> (height s < length p \<longrightarrow>
         clamp_origin (ci - int (length p) div 2) (height s) (length p) = 0)
   \<and> (width s < ncols p \<longrightarrow>
         clamp_origin (cj - int (ncols p) div 2) (width s) (ncols p) = 0)"
proof (intro conjI impI)
  assume a: "consistent s \<and> shape_ok p (length p) (ncols p) \<and> binary p
      \<and> length p \<le> height s \<and> ncols p \<le> width s"
  then have f: "consistent s" "shape_ok p (length p) (ncols p)"
    "length p \<le> height s" "ncols p \<le> width s" by simp_all
  note ri = clamp_origin_range[OF f(3), of "ci - int (length p) div 2"]
  note rj = clamp_origin_range[OF f(4), of "cj - int (ncols p) div 2"]
  from apply_pattern_fits[OF f, of ci cj] ri rj
  show "let i0 = clamp_origin (ci - int (length p) div 2) (height s) (length p);
           j0 = clamp_origin (cj - int (ncols p) div 2) (width s) (ncols p)
       in 0 \<le> i0 \<and> i0 + int (length p) \<le> int (height s)
          \<and> 0 \<le> j0 \<and> j0 + int (ncols p) \<le> int (width s)
          \<and> fst (apply_pattern s p ci cj) = None
          \<and> shape_ok (grid (snd (apply_pattern s p ci cj))) (height s) (width s)
          \<and> (\<forall>r<height s. \<forall>c<width s.
                grid (snd (apply_pattern s p ci cj)) ! r ! c =
                  (if i0 \<le> int r \<and> int r < i0 + int (length p)
                      \<and> j0 \<le> int c \<and> int c < j0 + int (ncols p)
                   then p ! (r - nat i0) ! (c - nat j0)
                   else grid s ! r ! c))"
    unfolding Let_def by auto
next
  assume "height s < length p"
  then show "clamp_origin (ci - int (length p) div 2) (height s) (length p) = 0"
    by (rule clamp_origin_oversize)
next
  assume "width s < ncols p"
  then show "clamp_origin (cj - int (ncols p) div 2) (width s) (ncols p) = 0"
    by (rule clamp_origin_oversize)
qed

theorem apply_pattern_clamps_and_overwrites_witness:
  "consistent (GameOfLife_init 4 4)
   \<and> shape_ok [[0, 1, 0], [0, 0, 1], [1, 1, 1]] (length [[0, 1, 0], [0, 0, 1], [1, 1, 1::int]])
        (ncols [[0, 1, 0], [0, 0, 1], [1, 1, 1]])
   \<and> binary [[0, 1, 0], [0, 0, 1], [1, 1, 1]]
   \<and> length [[0, 1, 0], [0, 0, 1], [1, 1, 1::int]] \<le> height (GameOfLife_init 4 4)
   \<and> ncols [[0, 1, 0], [0, 0, 1], [1, 1, 1]] \<le> width (GameOfLife_init 4 4)
   \<and> clamp_origin (10 - int (length [[0, 1, 0], [0, 0, 1], [1, 1, 1::int]]) div 2) 4 3 = 1
   \<and> clamp_origin (- 3 - int (ncols [[0, 1, 0], [0, 0, 1], [1, 1, 1]]) div 2) 4 3 = 0
   \<and> fst (apply_pattern (GameOfLife_init 4 4) [[0, 1, 0], [0, 0, 1], [1, 1, 1]] 10 (- 3)) = None
   \<and> grid (snd (apply_pattern (GameOfLife_init 4 4) [[0, 1, 0], [0, 0, 1], [1, 1, 1]] 10 (- 3)))
        = [[0, 0, 0, 0], [0, 1, 0, 0], [0, 0, 1, 0], [1, 1, 1, 0]]
   \<and> height (GameOfLife_init 1 1) < length [[1, 1], [1, 1::int]]
   \<and> clamp_origin (7 - int (length [[1, 1], [1, 1::int]]) div 2) (height (GameOfLife_init 1 1))
        (length [[1, 1], [1, 1::int]]) = 0
   \<and> width (GameOfLife_init 1 1) < ncols [[1, 1], [1, 1]]
   \<and> clamp_origin (7 - int (ncols [[1, 1], [1, 1]]) div 2) (width (GameOfLife_init 1 1))
        (ncols [[1, 1], [1, 1]]) = 0"
proof -
  let ?p = "[[0, 1, 0], [0, 0, 1], [1, 1, 1]] :: ndarray"
  let ?q = "[[1, 1], [1, 1]] :: ndarray"
  let ?s = "GameOfLife_init 4 4"
  have c: "consistent ?s" "shape_ok ?p (length ?p) (ncols ?p)" "binary ?p"
    "length ?p \<le> height ?s" "ncols ?p \<le> width ?s"
    "height (GameOfLife_init 1 1) < length ?q" "width (GameOfLife_init 1 1) < ncols ?q"
    by (simp_all add: consistent_def shape_ok_def binary_def GameOfLife_init_def ncols_def)
  have e: "clamp_origin (10 - int (length ?p) div 2) 4 3 = 1"
    "clamp_origin (- 3 - int (ncols ?p) div 2) 4 3 = 0"
    by (simp_all add: clamp_origin_def ncols_def)
  have g: "grid (snd (apply_pattern ?s ?p 10 (- 3)))
        = [[0, 0, 0, 0], [0, 1, 0, 0], [0, 0, 1, 0], [1, 1, 1, 0]]"
    by code_simp
  from apply_pattern_clamps_and_overwrites[of ?s ?p 10 "- 3"] c
  have 1: "fst (apply_pattern ?s ?p 10 (- 3)) = None"
    unfolding Let_def by blast
  from apply_pattern_clamps_and_overwrites[of "GameOfLife_init 1 1" ?q 7 7] c(6,7)
  have 2: "clamp_origin (7 - int (length ?q) div 2) (height (GameOfLife_init 1 1)) (length ?q) = 0"
    "clamp_origin (7 - int (ncols ?q) div 2) (width (GameOfLife_init 1 1)) (ncols ?q) = 0"
    by blast+
  from c e g 1 2 show ?thesis by blast
qed

text \<open>
  Against C6 as stated: on the 50 by 50 engine a pattern of 51 rows and 1 column gets
  the origin 0, the slice assignment raises ValueError, and the grid is unchanged.
\<close>

theorem apply_pattern_larger_than_grid_raises:
  "apply_pattern (GameOfLife_init 50 50) (replicate 51 [1]) 0 0
     = (Some ValueError, GameOfLife_init 50 50)"
  by code_simp

text \<open>
  C7, as the code has it. Loading a state replaces the grid by the array \<open>np.load\<close>
  returned and changes nothing else: the generation counter, the history and the stored
  width and height stay as they were. When the array has the shape of the grid the call
  returns normally.
\<close>

theorem load_state_replaces_grid_only:
  "grid (snd (load_state s (Some (Inr a)))) = a
   \<and> generation (snd (load_state s (Some (Inr a)))) = generation s
   \<and> history (snd (load_state s (Some (Inr a)))) = history s
   \<and> height (snd (load_state s (Some (Inr a)))) = height s
   \<and> width (snd (load_state s (Some (Inr a)))) = width s
   \<and> (snd (load_state s (Some (Inr a))))\<lparr>grid := grid s\<rparr> = s
   \<and> (shape_ok a (height s) (width s) \<longrightarrow> fst (load_state s (Some (Inr a))) = None)"
proof -
  have "draw_grid (s\<lparr>grid := a\<rparr>) = None" if "shape_ok a (height s) (width s)"
    using that by (intro draw_grid_ok) (simp add: consistent_def)
  then show ?thesis by (simp add: load_state_def)
qed

theorem load_state_replaces_grid_only_witness:
  "shape_ok [[1, 0], [0, 1]] (height (snd (update (GameOfLife_init 2 2))))
       (width (snd (update (GameOfLife_init 2 2))))
   \<and> load_state (snd (update (GameOfLife_init 2 2))) (Some (Inr [[1, 0], [0, 1]]))
       = (None, (GameOfLife_init 2 2)\<lparr>grid := [[1, 0], [0, 1]], generation := 1,
                  history := [[[0, 0], [0, 0]]]\<rparr>)"
proof -
  let ?s = "snd (update (GameOfLife_init 2 2))"
  have u: "?s = (GameOfLife_init 2 2)\<lparr>grid := [[0, 0], [0, 0]], generation := 1,
                  history := [[[0, 0], [0, 0]]]\<rparr>"
    by code_simp
  have c: "shape_ok [[1, 0], [0, 1]] (height ?s) (width ?s)"
    unfolding u by (simp add: shape_ok_def GameOfLife_init_def)
  note h = load_state_replaces_grid_only[of ?s "[[1, 0], [0, 1]]"]
  from h c have 1: "fst (load_state ?s (Some (Inr [[1, 0], [0, 1]]))) = None" by blast
  from h have 2: "grid (snd (load_state ?s (Some (Inr [[1, 0], [0, 1]])))) = [[1, 0], [0, 1]]"
    "(snd (load_state ?s (Some (Inr [[1, 0], [0, 1]]))))\<lparr>grid := grid ?s\<rparr> = ?s"
    by blast+
  have "snd (load_state ?s (Some (Inr [[1, 0], [0, 1]]))) = ?s\<lparr>grid := [[1, 0], [0, 1]]\<rparr>"
    by (simp add: load_state_def)
  with 1 have "load_state ?s (Some (Inr [[1, 0], [0, 1]])) = (None, ?s\<lparr>grid := [[1, 0], [0, 1]]\<rparr>)"
    by (simp add: prod_eq_iff)
  with c show ?thesis unfolding u by simp
qed

text \<open>
  Against C7 as stated: after one step the counter is 1 and the history holds the grid
  of before the step; a load leaves both so.
\<close>

theorem load_state_keeps_generation_and_history:
  "generation (snd (load_state (snd (update (GameOfLife_init 1 1))) (Some (Inr [[1]])))) = 1
   \<and> history (snd (load_state (snd (update (GameOfLife_init 1 1))) (Some (Inr [[1]])))) = [[[0]]]
   \<and> grid (snd (load_state (snd (update (GameOfLife_init 1 1))) (Some (Inr [[1]])))) = [[1]]"
  by code_simp

text \<open>
  C8, as the code has it. \<open>load_state\<close> checks nothing about the array it is given.
  When \<open>np.load\<close> raises, the exception reaches the caller and the engine is unchanged;
  when the dialog gives no file nothing happens. Every array \<open>np.load\<close> returns becomes
  the grid, and when it has the shape of the grid the call returns normally, whatever
  values it holds.
\<close>

theorem load_state_installs_without_validation:
  "load_state s (Some (Inl e)) = (Some e, s)
   \<and> load_state s None = (None, s)
   \<and> snd (load_state s (Some (Inr a))) = s\<lparr>grid := a\<rparr>
   \<and> (shape_ok a (height s) (width s) \<longrightarrow>
         load_state s (Some (Inr a)) = (None, s\<lparr>grid := a\<rparr>))"
proof -
  have "draw_grid (s\<lparr>grid := a\<rparr>) = None" if "shape_ok a (height s) (width s)"
    using that by (intro draw_grid_ok) (simp add: consistent_def)
  then show ?thesis by (simp add: load_state_def)
qed

theorem load_state_installs_without_validation_witness:
  "shape_ok [[2, 0], [0, 7]] (height (GameOfLife_init 2 2)) (width (GameOfLife_init 2 2))
   \<and> load_state (GameOfLife_init 2 2) (Some (Inr [[2, 0], [0, 7]]))
        = (None, (GameOfLife_init 2 2)\<lparr>grid := [[2, 0], [0, 7]]\<rparr>)
   \<and> load_state (GameOfLife_init 2 2) (Some (Inl OSError)) = (Some OSError, GameOfLife_init 2 2)"
proof -
  have c: "shape_ok [[2, 0], [0, 7]] (height (GameOfLife_init 2 2)) (width (GameOfLife_init 2 2))"
    by (simp add: shape_ok_def GameOfLife_init_def)
  note h = load_state_installs_without_validation[of "GameOfLife_init 2 2" OSError "[[2, 0], [0, 7]]"]
  from h c have 1: "load_state (GameOfLife_init 2 2) (Some (Inr [[2, 0], [0, 7]]))
        = (None, (GameOfLife_init 2 2)\<lparr>grid := [[2, 0], [0, 7]]\<rparr>)"
    by blast
  from h have 2: "load_state (GameOfLife_init 2 2) (Some (Inl OSError)) = (Some OSError, GameOfLife_init 2 2)"
    by blast
  from c 1 2 show ?thesis by blast
qed

text \<open>
  Against C8 as stated: a matrix that is not binary is loaded into the 2 by 2 engine
  without any error, and replaces the grid.
\<close>

theorem load_state_accepts_non_binary_matrix:
  "\<not> binary [[2, 0], [0, 7]]
   \<and> load_state (GameOfLife_init 2 2) (Some (Inr [[2, 0], [0, 7]]))
        = (None, (GameOfLife_init 2 2)\<lparr>grid := [[2, 0], [0, 7]]\<rparr>)
   \<and> grid (snd (load_state (GameOfLife_init 2 2) (Some (Inr [[2, 0], [0, 7]])))) \<noteq> grid (GameOfLife_init 2 2)"
proof -
  have "\<not> binary [[2, 0], [0, 7]]" by (simp add: binary_def)
  moreover have "load_state (GameOfLife_init 2 2) (Some (Inr [[2, 0], [0, 7]]))
        = (None, (GameOfLife_init 2 2)\<lparr>grid := [[2, 0], [0, 7]]\<rparr>)"
    by code_simp
  moreover have "grid (GameOfLife_init 2 2) = [[0, 0], [0, 0]]" by code_simp
  ultimately show ?thesis by simp
qed

end
